theory Spec2Isabelle
  imports Main
begin

section \<open>Data model\<close>

text \<open>
  The exceptions the source can raise: an out-of-range index into a numpy array or a
  Python list, a floor division by zero, and a numpy ValueError (a negative dimension
  given to \<open>np.zeros\<close>, \<open>argmin\<close> of an empty sequence).
\<close>

datatype error = IndexError | ZeroDivisionError | ValueError

text \<open>
  The cover matrix is a two-dimensional numpy array. Its rows are kept as lists; the
  second component of its shape is kept beside them, since it is not recoverable from
  an array with no rows.
\<close>

record matrix =
  shape1 :: nat
  rows :: "int list list"

definition shape0 :: "matrix \<Rightarrow> nat" where
  "shape0 M = length (rows M)"

definition at :: "matrix \<Rightarrow> nat \<Rightarrow> nat \<Rightarrow> int" where
  "at M r c = rows M ! r ! c"

definition np_zeros :: "nat \<Rightarrow> nat \<Rightarrow> matrix" where
  "np_zeros n m = \<lparr>shape1 = m, rows = replicate n (replicate m 0)\<rparr>"

text \<open>
  numpy index normalisation along an axis of length \<open>n\<close>: an index in \<open>[-n, 0)\<close>
  counts from the end, an index outside \<open>[-n, n)\<close> raises IndexError.
\<close>

definition norm_index :: "nat \<Rightarrow> int \<Rightarrow> nat option" where
  "norm_index n j =
     (if 0 \<le> j \<and> j < int n then Some (nat j)
      else if - int n \<le> j \<and> j < 0 then Some (nat (j + int n))
      else None)"

text \<open>\<open>cover[r, j] = v\<close>, with \<open>r\<close> a length of a Python list (never negative).\<close>

definition set_item :: "matrix \<Rightarrow> nat \<Rightarrow> int \<Rightarrow> int \<Rightarrow> error + matrix" where
  "set_item M r j v =
     (if r < shape0 M then
        (case norm_index (shape1 M) j of
           None \<Rightarrow> Inl IndexError
         | Some c \<Rightarrow> Inr (M\<lparr>rows := (rows M)[r := (rows M ! r)[c := v]]\<rparr>))
      else Inl IndexError)"

text \<open>A possibility is the triple (row, col, digit).\<close>

type_synonym possibility = "nat \<times> nat \<times> int"

type_synonym grid = "int list list"

text \<open>A loop whose body may raise: the first exception ends it.\<close>

fun foldE :: "('a \<Rightarrow> 's \<Rightarrow> error + 's) \<Rightarrow> 'a list \<Rightarrow> 's \<Rightarrow> error + 's" where
  "foldE f [] s = Inr s"
| "foldE f (x # xs) s = (case f x s of Inl e \<Rightarrow> Inl e | Inr s' \<Rightarrow> foldE f xs s')"

section \<open>create\_cover and add\_possibility\<close>

text \<open>
  \<open>add_possibility\<close> writes four entries of row \<open>cover_row\<close>, in the order of the
  source. The block index is parsed as Python parses it:
  \<open>((row // block_width) * grid_width) // block_width + (col // block_width)\<close>.
\<close>

definition add_possibility ::
  "possibility \<Rightarrow> matrix \<Rightarrow> nat \<Rightarrow> nat \<Rightarrow> nat \<Rightarrow> error + matrix" where
  "add_possibility possibility cover cover_row grid_width block_width =
     (case possibility of (row, col, n) \<Rightarrow>
        (case set_item cover cover_row (int (row * grid_width + col)) 1 of
           Inl e \<Rightarrow> Inl e
         | Inr c1 \<Rightarrow>
        (case set_item c1 cover_row
                (int (grid_width * grid_width + row * grid_width) + n - 1) 1 of
           Inl e \<Rightarrow> Inl e
         | Inr c2 \<Rightarrow>
        (case set_item c2 cover_row
                (int (2 * grid_width * grid_width + col * grid_width) + n - 1) 1 of
           Inl e \<Rightarrow> Inl e
         | Inr c3 \<Rightarrow>
        (if block_width = 0 then Inl ZeroDivisionError
         else
           let block_idx =
                 ((row div block_width) * grid_width) div block_width + (col div block_width)
           in set_item c3 cover_row
                (int (3 * grid_width * grid_width + block_idx * grid_width) + n - 1) 1)))))"

text \<open>
  The two statements that every emitted possibility goes through: \<open>add_possibility\<close>
  at row \<open>len(possibilities)\<close>, then \<open>possibilities.append\<close>.
\<close>

definition emit ::
  "nat \<Rightarrow> nat \<Rightarrow> possibility \<Rightarrow> matrix \<times> possibility list
     \<Rightarrow> error + matrix \<times> possibility list" where
  "emit grid_width block_width possibility st =
     (case st of (cover, possibilities) \<Rightarrow>
        (case add_possibility possibility cover (length possibilities) grid_width block_width of
           Inl e \<Rightarrow> Inl e
         | Inr cover' \<Rightarrow> Inr (cover', possibilities @ [possibility])))"

text \<open>\<open>sudoku[row, col]\<close> for \<open>row\<close>, \<open>col\<close> taken from \<open>range(g_len)\<close>.\<close>

definition get_cell :: "grid \<Rightarrow> nat \<Rightarrow> nat \<Rightarrow> error + int" where
  "get_cell sudoku row col =
     (if row < length sudoku \<and> col < length (sudoku ! row) then Inr (sudoku ! row ! col)
      else Inl IndexError)"

text \<open>The body of the inner loop of \<open>create_cover\<close>, for the cell (row, col).\<close>

definition visit_cell ::
  "grid \<Rightarrow> nat \<Rightarrow> nat \<Rightarrow> nat \<Rightarrow> nat \<Rightarrow> matrix \<times> possibility list
     \<Rightarrow> error + matrix \<times> possibility list" where
  "visit_cell sudoku grid_width block_width row col st =
     (case get_cell sudoku row col of
        Inl e \<Rightarrow> Inl e
      | Inr v \<Rightarrow>
          if v \<noteq> 0 then emit grid_width block_width (row, col, v) st
          else foldE (\<lambda>n. emit grid_width block_width (row, col, n))
                 (map int [1..<grid_width + 1]) st)"

definition count_nonzero :: "grid \<Rightarrow> nat" where
  "count_nonzero sudoku = sum_list (map (\<lambda>r. length (filter (\<lambda>v. v \<noteq> 0) r)) sudoku)"

definition create_cover ::
  "grid \<Rightarrow> nat \<Rightarrow> nat \<Rightarrow> error + matrix \<times> possibility list" where
  "create_cover sudoku grid_width block_width =
     (let g_len = length sudoku;
          n_non_zeros = count_nonzero sudoku;
          n_possibilities = (int (g_len * g_len) - int n_non_zeros) * int g_len + int n_non_zeros;
          n_constrains = 4 * g_len * g_len
      in if n_possibilities < 0 then Inl ValueError
         else
           foldE (\<lambda>row. foldE (\<lambda>col. visit_cell sudoku grid_width block_width row col)
                          [0..<g_len])
             [0..<g_len]
             (np_zeros (nat n_possibilities) n_constrains, []))"

section \<open>The active-set tracker\<close>

text \<open>
  \<open>select\<close>: both index expressions check their indices against the shape of the
  cover. An empty \<open>active_cols\<close> becomes a float array, which numpy refuses as an
  index. The rows are kept by position in \<open>active_rows\<close>, in that order.
\<close>

definition select ::
  "nat \<Rightarrow> matrix \<Rightarrow> nat list \<Rightarrow> nat list \<Rightarrow> error + nat list \<times> nat list" where
  "select row cover active_rows active_cols =
     (if active_cols = [] then Inl IndexError
      else if row < shape0 cover \<and> (\<forall>c \<in> set active_cols. c < shape1 cover)
              \<and> (\<forall>r \<in> set active_rows. r < shape0 cover) then
        let columns_to_remove = filter (\<lambda>c. at cover row c \<noteq> 0) active_cols;
            rows_to_remove =
              filter (\<lambda>r. \<exists>c \<in> set columns_to_remove. at cover r c \<noteq> 0) active_rows
        in Inr (rows_to_remove, columns_to_remove)
      else Inl IndexError)"

text \<open>\<open>deselect\<close> extends the caller's two lists in place.\<close>

definition deselect ::
  "nat list \<Rightarrow> nat list \<Rightarrow> nat list \<Rightarrow> nat list \<Rightarrow> nat list \<times> nat list" where
  "deselect removed_rows removed_cols active_rows active_cols =
     (active_rows @ removed_rows, active_cols @ removed_cols)"

text \<open>\<open>np.setdiff1d\<close>: the sorted, unique values of the first array not in the second.\<close>

definition setdiff1d :: "nat list \<Rightarrow> nat list \<Rightarrow> nat list" where
  "setdiff1d ar1 ar2 = filter (\<lambda>x. x \<notin> set ar2) (sort (remdups ar1))"

section \<open>The column selector\<close>

text \<open>\<open>cp.sum(cover[active_rows, :], axis=0)\<close>: one sum per column of the cover.\<close>

definition col_counts :: "matrix \<Rightarrow> nat list \<Rightarrow> error + int list" where
  "col_counts cover active_rows =
     (if \<forall>r \<in> set active_rows. r < shape0 cover then
        Inr (map (\<lambda>c. sum_list (map (\<lambda>r. at cover r c) active_rows)) [0..<shape1 cover])
      else Inl IndexError)"

text \<open>\<open>argmin\<close>: the index of the first occurrence of the minimum.\<close>

fun argmin :: "int list \<Rightarrow> nat" where
  "argmin [] = 0"
| "argmin [x] = 0"
| "argmin (x # y # ys) = (let i = argmin (y # ys) in if x \<le> (y # ys) ! i then 0 else Suc i)"

definition min_col :: "matrix \<Rightarrow> nat list \<Rightarrow> nat list \<Rightarrow> error + nat \<times> int" where
  "min_col cover active_rows active_cols =
     (case col_counts cover active_rows of
        Inl e \<Rightarrow> Inl e
      | Inr counts \<Rightarrow>
          if \<not> (\<forall>c \<in> set active_cols. c < length counts) then Inl IndexError
          else if active_cols = [] then Inl ValueError
          else
            let argmin = active_cols ! (argmin (map (\<lambda>c. counts ! c) active_cols))
            in Inr (argmin, counts ! argmin))"

section \<open>The search\<close>

text \<open>
  \<open>np.array(active_rows)[np.flatnonzero(cover_cpu[active_rows, col])]\<close>: the active
  rows with a non-zero entry in column \<open>col\<close>, in the order of \<open>active_rows\<close>.
\<close>

definition candidate_rows :: "matrix \<Rightarrow> nat list \<Rightarrow> nat \<Rightarrow> error + nat list" where
  "candidate_rows cover active_rows col =
     (if (\<forall>r \<in> set active_rows. r < shape0 cover) \<and> col < shape1 cover then
        Inr (filter (\<lambda>r. at cover r col \<noteq> 0) active_rows)
      else Inl IndexError)"

text \<open>
  Lines 114 to 118: \<open>select\<close>, then the two set differences that rebind the frame's
  \<open>active_rows\<close> and \<open>active_cols\<close> to fresh lists. The result is
  (rows\_to\_remove, cols\_to\_remove, active\_rows, active\_cols).
\<close>

definition descend ::
  "nat \<Rightarrow> matrix \<Rightarrow> nat list \<Rightarrow> nat list
     \<Rightarrow> error + nat list \<times> nat list \<times> nat list \<times> nat list" where
  "descend row cover active_rows active_cols =
     (case select row cover active_rows active_cols of
        Inl e \<Rightarrow> Inl e
      | Inr (rows_to_remove, cols_to_remove) \<Rightarrow>
          Inr (rows_to_remove, cols_to_remove,
               setdiff1d active_rows rows_to_remove,
               setdiff1d active_cols cols_to_remove))"

text \<open>A row covers a set of columns when it has a non-zero entry in one of them.\<close>

definition covers :: "matrix \<Rightarrow> nat list \<Rightarrow> nat \<Rightarrow> bool" where
  "covers cover active_cols row = (\<exists>c \<in> set active_cols. at cover row c \<noteq> 0)"

text \<open>
  \<open>solve\<close>, with the two lists it appends to and pops from returned beside its
  result. \<open>solve_loop\<close> is the \<open>for row in candidate_rows\<close> loop: its first
  argument holds the candidates still to try, its next two the frame's \<open>active_rows\<close>
  and \<open>active_cols\<close> as \<open>deselect\<close> left them. A loop that ends without success
  falls off the end of the function: Python returns \<open>None\<close>, which both callers test
  for truth only, so the result is \<open>False\<close> here.
\<close>

function solve ::
  "matrix \<Rightarrow> nat list \<Rightarrow> nat list \<Rightarrow> nat list \<Rightarrow> (int \<times> nat) list
     \<Rightarrow> error + bool \<times> nat list \<times> (int \<times> nat) list"
and solve_loop ::
  "matrix \<Rightarrow> nat list \<Rightarrow> nat list \<Rightarrow> nat list \<Rightarrow> nat list \<Rightarrow> (int \<times> nat) list
     \<Rightarrow> error + bool \<times> nat list \<times> (int \<times> nat) list"
where
  "solve cover active_rows active_cols solution solution_path =
     (if length active_cols = 0 then Inr (True, solution, solution_path)
      else
        (case min_col cover active_rows active_cols of
           Inl e \<Rightarrow> Inl e
         | Inr (col, count) \<Rightarrow>
             if count = 0 then Inr (False, solution, solution_path)
             else
               (case candidate_rows cover active_rows col of
                  Inl e \<Rightarrow> Inl e
                | Inr cands \<Rightarrow>
                    solve_loop cover cands active_rows active_cols solution solution_path)))"
| "solve_loop cover [] active_rows active_cols solution solution_path =
     Inr (False, solution, solution_path)"
| "solve_loop cover (row # rest) active_rows active_cols solution solution_path =
     (case descend row cover active_rows active_cols of
        Inl e \<Rightarrow> Inl e
      | Inr (rows_to_remove, cols_to_remove, active_rows', active_cols') \<Rightarrow>
          (case solve cover active_rows' active_cols'
                  (solution @ [row]) (solution_path @ [(1, row)]) of
             Inl e \<Rightarrow> Inl e
           | Inr (solved, solution', solution_path') \<Rightarrow>
               if solved then Inr (True, solution', solution_path')
               else
                 (case deselect rows_to_remove cols_to_remove active_rows' active_cols' of
                    (active_rows'', active_cols'') \<Rightarrow>
                      solve_loop cover rest active_rows'' active_cols''
                        (butlast solution') (solution_path' @ [(0, row)]))))"
  by pat_completeness auto

text \<open>
  The measure of the search: the number of distinct active columns, with one unit more
  for a loop whose remaining candidates are not known to cover an active column.
\<close>

definition search_measure where
  "search_measure x = (case x of
      Inl (cover, ar, ac, sol, path) \<Rightarrow> (2 * card (set ac) + 1, 0)
    | Inr (cover, cands, ar, ac, sol, path) \<Rightarrow>
        ((if \<forall>r \<in> set cands. covers cover ac r then 2 * card (set ac) else 2 * card (set ac) + 2),
         length cands))"

lemma set_setdiff1d: "set (setdiff1d xs ys) = set xs - set ys"
  by (auto simp: setdiff1d_def)

lemma argmin_less: "xs \<noteq> [] \<Longrightarrow> argmin xs < length xs"
  by (induction xs rule: argmin.induct) (auto simp: Let_def)

lemma min_col_in_active:
  assumes "min_col cover ar ac = Inr (col, count)"
  shows "col \<in> set ac"
proof -
  from assms obtain counts where c: "col_counts cover ar = Inr counts"
    by (auto simp: min_col_def split: sum.splits)
  from assms c have ne: "ac \<noteq> []"
    by (auto simp: min_col_def split: if_splits)
  from assms c ne have "col = ac ! argmin (map (\<lambda>c. counts ! c) ac)"
    by (auto simp: min_col_def Let_def split: if_splits)
  moreover have "argmin (map (\<lambda>c. counts ! c) ac) < length ac"
    using argmin_less [of "map (\<lambda>c. counts ! c) ac"] ne by simp
  ultimately show ?thesis by simp
qed

lemma candidate_rows_cover:
  assumes "candidate_rows cover ar col = Inr cands" "col \<in> set ac"
  shows "\<forall>r \<in> set cands. covers cover ac r"
  using assms by (auto simp: candidate_rows_def covers_def split: if_splits)

lemma descend_cols:
  assumes "descend row cover ar ac = Inr (rtr, ctr, ar', ac')"
  shows "set ctr \<subseteq> set ac" "set ac' = set ac - set ctr"
    "covers cover ac row \<Longrightarrow> \<exists>c. c \<in> set ctr"
  using assms
  by (auto simp: descend_def select_def Let_def set_setdiff1d covers_def filter_empty_conv
      split: sum.splits if_splits)

lemma descend_rows:
  assumes "descend row cover ar ac = Inr (rtr, ctr, ar', ac')"
  shows "set rtr \<subseteq> set ar" "set ar' = set ar - set rtr"
  using assms
  by (auto simp: descend_def select_def Let_def set_setdiff1d
      split: sum.splits if_splits)

lemma covers_cong: "set ac = set ac' \<Longrightarrow> covers cover ac r = covers cover ac' r"
  by (simp add: covers_def)

definition search_order where
  "search_order = inv_image (less_than <*lex*> less_than) search_measure"

lemma wf_search_order: "wf search_order"
  unfolding search_order_def by (intro wf_inv_image wf_lex_prod wf_less_than)

lemma order_enter_loop:
  assumes "min_col cover ar ac = Inr (col, count)" "candidate_rows cover ar col = Inr cands"
  shows "(Inr (cover, cands, ar, ac, sol, path), Inl (cover, ar, ac, sol', path'))
           \<in> search_order"
proof -
  have "col \<in> set ac" using min_col_in_active [OF assms(1)] .
  with assms(2) have "\<forall>r \<in> set cands. covers cover ac r"
    using candidate_rows_cover by blast
  then show ?thesis by (simp add: search_order_def search_measure_def)
qed

lemma descend_shrinks:
  assumes d: "descend row cover ar ac = Inr (rtr, ctr, ar', ac')" and c: "covers cover ac row"
  shows "set ac' \<subset> set ac"
proof -
  obtain c where "c \<in> set ctr" using descend_cols(3) [OF d c] by auto
  moreover have "set ctr \<subseteq> set ac" using descend_cols(1) [OF d] .
  ultimately show ?thesis using descend_cols(2) [OF d] by blast
qed

lemma order_descend:
  assumes d: "descend row cover ar ac = Inr (rtr, ctr, ar', ac')"
  shows "(Inl (cover, ar', ac', sol, path), Inr (cover, row # rest, ar, ac, sol', path'))
           \<in> search_order"
proof (cases "\<forall>r \<in> set (row # rest). covers cover ac r")
  case True
  then have "set ac' \<subset> set ac" using descend_shrinks [OF d] by simp
  then have "card (set ac') < card (set ac)"
    by (simp add: psubset_card_mono)
  with True show ?thesis by (simp add: search_order_def search_measure_def)
next
  case False
  have "set ac' \<subseteq> set ac" using descend_cols(2) [OF d] by blast
  then have "card (set ac') \<le> card (set ac)"
    by (simp add: card_mono)
  with False show ?thesis by (auto simp: search_order_def search_measure_def)
qed

lemma order_next_candidate:
  assumes d: "descend row cover ar ac = Inr (rtr, ctr, ar', ac')"
  shows "(Inr (cover, rest, ar' @ rtr, ac' @ ctr, sol, path),
          Inr (cover, row # rest, ar, ac, sol', path')) \<in> search_order"
proof -
  have s: "set (ac' @ ctr) = set ac"
    using descend_cols(1,2) [OF d] by auto
  then have eq: "\<And>r. covers cover (ac' @ ctr) r = covers cover ac r"
    by (simp add: covers_def)
  have c: "card (set (ac' @ ctr)) = card (set ac)" using s by simp
  show ?thesis
    unfolding search_order_def search_measure_def inv_image_def
    by (auto simp: eq c simp del: set_append)
qed

termination solve
proof (relation search_order, goal_cases)
  case 1
  show ?case by (rule wf_search_order)
next
  case (2 cover active_rows active_cols solution solution_path b x y ba)
  then show ?case using order_enter_loop [of cover active_rows active_cols x y ba] by simp
next
  case (3 cover row rest active_rows active_cols solution solution_path b x y xa ya xb yb)
  then have "descend row cover active_rows active_cols = Inr (x, xa, xb, yb)" by simp
  then show ?case by (rule order_descend)
next
  case (4 cover row rest active_rows active_cols solution solution_path b x y xa ya xb yb
      ba xc yc xd yd xca ye)
  then have d: "descend row cover active_rows active_cols = Inr (x, xa, xb, yb)" by simp
  from 4 have "xca = xb @ x" "ye = yb @ xa" by (simp_all add: deselect_def)
  then show ?case using order_next_candidate [OF d] by simp
qed

text \<open>
  The equation of \<open>solve\<close> unfolds on every argument; it is applied by name only.
\<close>

declare solve.simps [simp del]

section \<open>The solution builder and the entry point\<close>

text \<open>\<open>possibilities[i]\<close>, for an index that is never negative.\<close>

definition lookup :: "'a list \<Rightarrow> nat \<Rightarrow> error + 'a" where
  "lookup xs i = (if i < length xs then Inr (xs ! i) else Inl IndexError)"

definition zeros_like :: "grid \<Rightarrow> grid" where
  "zeros_like sudoku = map (map (\<lambda>v. 0)) sudoku"

text \<open>\<open>grid[row, col] = n\<close>, for indices that are never negative.\<close>

definition set_cell :: "grid \<Rightarrow> nat \<Rightarrow> nat \<Rightarrow> int \<Rightarrow> error + grid" where
  "set_cell g row col n =
     (if row < length g \<and> col < length (g ! row) then Inr (g[row := (g ! row)[col := n]])
      else Inl IndexError)"

definition build_final_sudoku :: "possibility list \<Rightarrow> nat list \<Rightarrow> grid \<Rightarrow> error + grid" where
  "build_final_sudoku possibilities solution sudoku =
     foldE (\<lambda>sol final.
              case lookup possibilities sol of
                Inl e \<Rightarrow> Inl e
              | Inr (row, col, n) \<Rightarrow> set_cell final row col n)
       solution (zeros_like sudoku)"

type_synonym step = "string \<times> nat \<times> nat \<times> int"

definition build_solving_path ::
  "possibility list \<Rightarrow> (int \<times> nat) list \<Rightarrow> error + step list" where
  "build_solving_path possibilities solution_path =
     foldE (\<lambda>(action, cover_row) sudoku_solution_path.
              case lookup possibilities cover_row of
                Inl e \<Rightarrow> Inl e
              | Inr (row, col, n) \<Rightarrow>
                  if action = 1 then Inr (sudoku_solution_path @ [(''ins'', row, col, n)])
                  else Inr (sudoku_solution_path @ [(''rem'', row, col, n)]))
       solution_path []"

text \<open>
  \<open>solve_sudoku\<close>. The elapsed time, the second component of the triple the source
  returns, is left out: the result is the pair of the completed grid and the solving
  path, both \<open>None\<close> when the search fails.
\<close>

definition solve_sudoku ::
  "grid \<Rightarrow> nat \<Rightarrow> nat \<Rightarrow> error + grid option \<times> step list option" where
  "solve_sudoku sudoku grid_width block_width =
     (case create_cover sudoku grid_width block_width of
        Inl e \<Rightarrow> Inl e
      | Inr (cover, possibilities) \<Rightarrow>
          (case solve cover [0..<shape0 cover] [0..<shape1 cover] [] [] of
             Inl e \<Rightarrow> Inl e
           | Inr (solved, solution, solution_path) \<Rightarrow>
               if solved then
                 (case build_final_sudoku possibilities solution sudoku of
                    Inl e \<Rightarrow> Inl e
                  | Inr completed_sudoku \<Rightarrow>
                      (case build_solving_path possibilities solution_path of
                         Inl e \<Rightarrow> Inl e
                       | Inr sudoku_solution_path \<Rightarrow>
                           Inr (Some completed_sudoku, Some sudoku_solution_path)))
               else Inr (None, None)))"

text \<open>
  The replay loop of \<open>main\<close> over the solving path: \<open>"ins"\<close> writes the digit into
  the grid, any other action writes 0.
\<close>

definition replay :: "step list \<Rightarrow> grid \<Rightarrow> error + grid" where
  "replay path sudoku =
     foldE (\<lambda>(action, row, col, n) g.
              if action = ''ins'' then set_cell g row col n else set_cell g row col 0)
       path sudoku"

lemma solve_rel_decreases:
  assumes "solve_solve_loop_rel x y"
  shows "(x, y) \<in> search_order"
  using assms
proof (cases rule: solve_solve_loop_rel.cases)
  case (1 cover active_rows active_cols solution solution_path b x y ba)
  then show ?thesis using order_enter_loop [of cover active_rows active_cols x y ba] by simp
next
  case (2 cover row rest active_rows active_cols solution solution_path b x y xa ya xb yb)
  then have "descend row cover active_rows active_cols = Inr (x, xa, xb, yb)" by simp
  then show ?thesis unfolding 2(1,2) by (rule order_descend)
next
  case (3 cover row rest active_rows active_cols solution solution_path b x y xa ya xb yb
      ba xc yc xd yd xca ye)
  then have d: "descend row cover active_rows active_cols = Inr (x, xa, xb, yb)" by simp
  from 3 have "xca = xb @ x" "ye = yb @ xa" by (simp_all add: deselect_def)
  then show ?thesis unfolding 3(1,2) using order_next_candidate [OF d] by simp
qed

lemma solve_total: "solve_solve_loop_dom x"
proof -
  have "wfp solve_solve_loop_rel"
    unfolding wfp_def
    by (rule wf_subset [OF wf_search_order]) (auto dest: solve_rel_decreases)
  then show ?thesis by (rule accp_wfpD)
qed

type_synonym frame = "matrix \<times> nat list \<times> nat list \<times> nat list \<times> (int \<times> nat) list"

definition nested_call :: "frame \<Rightarrow> frame \<Rightarrow> bool" where
  "nested_call callee caller = solve_solve_loop_rel\<^sup>+\<^sup>+ (Inl callee) (Inl caller)"

definition terminates :: "frame \<Rightarrow> bool" where
  "terminates args = solve_solve_loop_dom (Inl args)"

definition below_frame ::
  "matrix \<Rightarrow> nat list
     \<Rightarrow> frame + matrix \<times> nat list \<times> nat list \<times> nat list \<times> nat list \<times> (int \<times> nat) list
     \<Rightarrow> bool" where
  "below_frame cover ac x =
     (case x of
        Inl (cover', ar', ac', sol', path') \<Rightarrow> cover' = cover \<and> set ac' \<subset> set ac
      | Inr (cover', cands, ar', ac', sol', path') \<Rightarrow>
          cover' = cover \<and> set ac' \<subseteq> set ac \<and> (\<forall>r \<in> set cands. covers cover ac' r))"

lemma below_frame_base:
  assumes "solve_solve_loop_rel x y" "y = Inl (cover, ar, ac, sol, path)"
  shows "below_frame cover ac x"
  using assms(1)
proof (cases rule: solve_solve_loop_rel.cases)
  case (1 cover' active_rows active_cols solution solution_path b col count cands)
  with assms(2) have eq: "cover' = cover" "active_rows = ar" "active_cols = ac" by simp_all
  from 1 have "col \<in> set active_cols"
    using min_col_in_active [of cover' active_rows active_cols col count] by simp
  with 1 have "\<forall>r \<in> set cands. covers cover' active_cols r"
    using candidate_rows_cover [of cover' active_rows col cands active_cols] by simp
  with 1 eq show ?thesis by (simp add: below_frame_def)
next
  case 2
  with assms(2) show ?thesis by simp
next
  case 3
  with assms(2) show ?thesis by simp
qed

lemma below_frame_step:
  assumes "solve_solve_loop_rel x z" "below_frame cover ac z"
  shows "below_frame cover ac x"
  using assms(1)
proof (cases rule: solve_solve_loop_rel.cases)
  case (1 cover' active_rows active_cols solution solution_path b col count cands)
  then have "col \<in> set active_cols"
    using min_col_in_active [of cover' active_rows active_cols col count] by simp
  with 1 have "\<forall>r \<in> set cands. covers cover' active_cols r"
    using candidate_rows_cover [of cover' active_rows col cands active_cols] by simp
  with 1 assms(2) show ?thesis by (auto simp: below_frame_def)
next
  case (2 cover' row rest active_rows active_cols solution solution_path b x y xa ya xb yb)
  then have d: "descend row cover' active_rows active_cols = Inr (x, xa, xb, yb)" by simp
  from 2 assms(2) have "covers cover' active_cols row" by (simp add: below_frame_def)
  then have "set yb \<subset> set active_cols" using descend_shrinks [OF d] by simp
  with 2 assms(2) show ?thesis by (auto simp: below_frame_def)
next
  case (3 cover' row rest active_rows active_cols solution solution_path b x y xa ya xb yb
      ba xc yc xd yd xca ye)
  then have d: "descend row cover' active_rows active_cols = Inr (x, xa, xb, yb)" by simp
  from 3 have ye: "ye = yb @ xa" by (simp add: deselect_def)
  have s: "set ye = set active_cols"
    using descend_cols(1,2) [OF d] ye by auto
  then have "\<And>r. covers cover' ye r = covers cover' active_cols r"
    by (simp add: covers_def)
  with 3 assms(2) s show ?thesis by (auto simp: below_frame_def)
qed

lemma below_frame_trancl:
  assumes "solve_solve_loop_rel\<^sup>+\<^sup>+ x (Inl (cover, ar, ac, sol, path))"
  shows "below_frame cover ac x"
  using assms
proof (induction rule: converse_tranclp_induct)
  case (base y)
  then show ?case using below_frame_base by blast
next
  case (step y z)
  then show ?case using below_frame_step by blast
qed

text \<open>
  Claim C5. Every invocation of \<open>solve\<close> terminates, on every input: its arguments lie
  in the domain of the recursion. \<open>nested_call callee caller\<close> holds when the
  invocation with arguments \<open>callee\<close> is made, at any depth, inside the invocation
  with arguments \<open>caller\<close>; every such invocation receives a set of active columns
  that is a proper subset of its caller's, so at least one element smaller.
\<close>

theorem solve_terminates:
  "terminates (cover, active_rows, active_cols, solution, solution_path)
   \<and> (\<forall>cover' active_rows' active_cols' solution' solution_path'.
        nested_call (cover', active_rows', active_cols', solution', solution_path')
                    (cover, active_rows, active_cols, solution, solution_path)
        \<longrightarrow> set active_cols' \<subset> set active_cols
            \<and> card (set active_cols') < card (set active_cols))"
proof -
  have "terminates (cover, active_rows, active_cols, solution, solution_path)"
    unfolding terminates_def by (rule solve_total)
  moreover have "set ac' \<subset> set active_cols \<and> card (set ac') < card (set active_cols)"
    if "nested_call (cover', ar', ac', sol', path')
          (cover, active_rows, active_cols, solution, solution_path)"
    for cover' ar' ac' sol' path'
  proof -
    from that have "below_frame cover active_cols (Inl (cover', ar', ac', sol', path'))"
      unfolding nested_call_def by (rule below_frame_trancl)
    then have "set ac' \<subset> set active_cols" by (simp add: below_frame_def)
    then show ?thesis by (simp add: psubset_card_mono)
  qed
  ultimately show ?thesis by blast
qed

lemma argmin_le: "j < length xs \<Longrightarrow> xs ! argmin xs \<le> xs ! j"
proof (induction xs arbitrary: j rule: argmin.induct)
  case 1 then show ?case by simp
next
  case (2 x) then show ?case by simp
next
  case (3 x y ys)
  show ?case
  proof (cases j)
    case 0
    then show ?thesis by (auto simp: Let_def)
  next
    case (Suc k)
    with 3 have "(y # ys) ! argmin (y # ys) \<le> (y # ys) ! k" by simp
    with Suc show ?thesis by (auto simp: Let_def)
  qed
qed

lemma argmin_first: "j < argmin xs \<Longrightarrow> xs ! argmin xs < xs ! j"
proof (induction xs arbitrary: j rule: argmin.induct)
  case 1 then show ?case by simp
next
  case (2 x) then show ?case by simp
next
  case (3 x y ys)
  show ?case
  proof (cases j)
    case 0
    with 3(2) show ?thesis by (auto simp: Let_def split: if_splits)
  next
    case (Suc k)
    with 3(2) have "k < argmin (y # ys)" by (auto simp: Let_def split: if_splits)
    with 3(1) have "(y # ys) ! argmin (y # ys) < (y # ys) ! k" by simp
    with Suc 3(2) show ?thesis by (auto simp: Let_def split: if_splits)
  qed
qed

definition count_ones :: "matrix \<Rightarrow> nat list \<Rightarrow> nat \<Rightarrow> nat" where
  "count_ones cover active_rows c = card {r \<in> set active_rows. at cover r c = 1}"

lemma sum_binary:
  assumes "distinct ar" "\<forall>r \<in> set ar. f r = 0 \<or> f r = (1::int)"
  shows "sum_list (map f ar) = int (card {r \<in> set ar. f r = 1})"
  using assms
proof (induction ar)
  case Nil then show ?case by simp
next
  case (Cons a ar)
  have fin: "finite {r \<in> set ar. f r = 1}" by simp
  have notin: "a \<notin> {r \<in> set ar. f r = 1}" using Cons.prems by simp
  show ?case
  proof (cases "f a = 1")
    case True
    then have "{r \<in> set (a # ar). f r = 1} = insert a {r \<in> set ar. f r = 1}" by auto
    with True Cons fin notin show ?thesis by simp
  next
    case False
    then have "{r \<in> set (a # ar). f r = 1} = {r \<in> set ar. f r = 1}" by auto
    with False Cons show ?thesis by simp
  qed
qed

lemma min_col_eq:
  assumes "ac \<noteq> []" "\<forall>r \<in> set ar. r < shape0 cover" "\<forall>c \<in> set ac. c < shape1 cover"
  shows "min_col cover ar ac =
    Inr (ac ! argmin (map (\<lambda>c. sum_list (map (\<lambda>r. at cover r c) ar)) ac),
         sum_list (map (\<lambda>r. at cover r (ac ! argmin (map (\<lambda>c. sum_list (map (\<lambda>r. at cover r c) ar)) ac))) ar))"
proof -
  let ?counts = "map (\<lambda>c. sum_list (map (\<lambda>r. at cover r c) ar)) [0..<shape1 cover]"
  have cc: "col_counts cover ar = Inr ?counts" using assms(2) by (simp add: col_counts_def)
  have m: "map (\<lambda>c. ?counts ! c) ac = map (\<lambda>c. sum_list (map (\<lambda>r. at cover r c) ar)) ac"
    using assms(3) by simp
  have "argmin (map (\<lambda>c. ?counts ! c) ac) < length ac"
    using argmin_less [of "map (\<lambda>c. ?counts ! c) ac"] assms(1) by simp
  then have "ac ! argmin (map (\<lambda>c. ?counts ! c) ac) < shape1 cover"
    using assms(3) by simp
  then show ?thesis
    using cc assms(1,3) unfolding min_col_def m by (simp add: Let_def m del: upt_Suc)
qed


text \<open>
  Claim C3. For a non-empty, ascending list of active columns and a duplicate-free list
  of active rows of a 0/1 cover, \<open>min_col\<close> returns an active column together with
  the number of active rows that have a 1 in it; no active column has fewer, and among
  the active columns with that same number it is the one of lowest index. When that
  number is 0, \<open>solve\<close> returns failure at once, its solution and its path as they
  were given: no candidate row is built or tried.
\<close>

theorem min_col_selects_minimum:
  assumes ne: "active_cols \<noteq> []" and asc: "sorted_wrt (<) active_cols"
    and dist: "distinct active_rows"
    and rows_ok: "\<forall>r \<in> set active_rows. r < shape0 cover"
    and cols_ok: "\<forall>c \<in> set active_cols. c < shape1 cover"
    and binary: "\<forall>r \<in> set active_rows. \<forall>c \<in> set active_cols. at cover r c = 0 \<or> at cover r c = 1"
  shows "\<exists>col. min_col cover active_rows active_cols
                 = Inr (col, int (count_ones cover active_rows col))
           \<and> col \<in> set active_cols
           \<and> (\<forall>c \<in> set active_cols.
                 count_ones cover active_rows col \<le> count_ones cover active_rows c)
           \<and> (\<forall>c \<in> set active_cols.
                 count_ones cover active_rows c = count_ones cover active_rows col \<longrightarrow> col \<le> c)
           \<and> (count_ones cover active_rows col = 0 \<longrightarrow>
                 solve cover active_rows active_cols solution solution_path
                   = Inr (False, solution, solution_path))"
proof -
  define f where "f = (\<lambda>c. sum_list (map (\<lambda>r. at cover r c) active_rows))"
  define i where "i = argmin (map f active_cols)"
  define col where "col = active_cols ! i"
  have m: "min_col cover active_rows active_cols = Inr (col, f col)"
    using min_col_eq [OF ne rows_ok cols_ok] by (simp add: f_def i_def col_def)
  have i: "i < length active_cols"
    using argmin_less [of "map f active_cols"] ne by (simp add: i_def)
  then have col_in: "col \<in> set active_cols" by (simp add: col_def)
  have cnt: "f c = int (count_ones cover active_rows c)" if "c \<in> set active_cols" for c
    unfolding f_def count_ones_def using that binary
    by (intro sum_binary [OF dist]) blast
  have least: "f col \<le> f c \<and> (f c = f col \<longrightarrow> col \<le> c)" if "c \<in> set active_cols" for c
  proof -
    from that obtain j where j: "j < length active_cols" "c = active_cols ! j"
      by (auto simp: in_set_conv_nth)
    have "map f active_cols ! i \<le> map f active_cols ! j"
      unfolding i_def using j(1) by (intro argmin_le) simp
    then have le: "f col \<le> f c" using i j by (simp add: col_def)
    have "col \<le> c" if eq: "f c = f col"
    proof (rule ccontr)
      assume "\<not> col \<le> c"
      then have "active_cols ! j < active_cols ! i" using j by (simp add: col_def)
      have "\<not> i < j"
      proof
        assume "i < j"
        then have "active_cols ! i < active_cols ! j"
          using asc j(1) by (simp add: sorted_wrt_nth_less)
        with \<open>active_cols ! j < active_cols ! i\<close> show False by simp
      qed
      moreover have "i \<noteq> j" using \<open>active_cols ! j < active_cols ! i\<close> by auto
      ultimately have "j < i" by simp
      then have "map f active_cols ! i < map f active_cols ! j"
        unfolding i_def by (rule argmin_first)
      then show False using i j eq by (simp add: col_def)
    qed
    with le show ?thesis by blast
  qed
  have fail: "solve cover active_rows active_cols solution solution_path
                = Inr (False, solution, solution_path)"
    if "count_ones cover active_rows col = 0"
    using that m ne cnt [OF col_in] by (simp add: solve.simps)
  show ?thesis
  proof (intro exI [of _ col] conjI ballI impI)
    show "min_col cover active_rows active_cols = Inr (col, int (count_ones cover active_rows col))"
      using m cnt [OF col_in] by simp
    show "col \<in> set active_cols" by (rule col_in)
    show "count_ones cover active_rows col \<le> count_ones cover active_rows c"
      if "c \<in> set active_cols" for c
      using least [OF that] cnt [OF that] cnt [OF col_in] by simp
    show "col \<le> c"
      if "c \<in> set active_cols" "count_ones cover active_rows c = count_ones cover active_rows col" for c
      using least [OF that(1)] cnt [OF that(1)] cnt [OF col_in] that(2) by simp
    show "solve cover active_rows active_cols solution solution_path
                = Inr (False, solution, solution_path)"
      if "count_ones cover active_rows col = 0"
      using fail [OF that] .
  qed
qed

definition invoked :: "frame \<Rightarrow> frame \<Rightarrow> bool" where
  "invoked root f = (f = root \<or> nested_call f root)"

lemma sorted_setdiff1d: "sorted_wrt (<) (setdiff1d xs ys)"
proof -
  have "sorted_wrt (<) (sort (remdups xs))"
    by (simp add: strict_sorted_iff)
  then show ?thesis
    unfolding setdiff1d_def by (rule sorted_wrt_filter)
qed

lemma rel_into_solve:
  assumes "solve_solve_loop_rel x y" "x = Inl (cover, ar, ac, sol, path)"
  shows "sorted_wrt (<) ar \<and> sorted_wrt (<) ac"
  using assms(1)
proof (cases rule: solve_solve_loop_rel.cases)
  case 1
  with assms(2) show ?thesis by simp
next
  case (2 cover' row rest active_rows active_cols solution solution_path b x y xa ya xb yb)
  then have "descend row cover' active_rows active_cols = Inr (x, xa, xb, yb)" by simp
  then have "xb = setdiff1d active_rows x" "yb = setdiff1d active_cols xa"
    by (auto simp: descend_def split: sum.splits)
  with 2 assms(2) show ?thesis by (simp add: sorted_setdiff1d)
next
  case 3
  with assms(2) show ?thesis by simp
qed

text \<open>
  Claim C9. At entry to every invocation of \<open>solve\<close>, the top-level one made by
  \<open>solve_sudoku\<close> and every one nested in it, \<open>active_rows\<close> and \<open>active_cols\<close>
  are strictly ascending, hence duplicate-free; the candidate rows computed from them
  are then strictly ascending as well.
\<close>

theorem solve_entry_ascending:
  assumes "invoked (cover, [0..<shape0 cover], [0..<shape1 cover], [], [])
             (cover', active_rows, active_cols, solution, solution_path)"
  shows "sorted_wrt (<) active_rows \<and> sorted_wrt (<) active_cols
       \<and> distinct active_rows \<and> distinct active_cols
       \<and> (\<forall>col cands. candidate_rows cover' active_rows col = Inr cands
             \<longrightarrow> sorted_wrt (<) cands)"
proof -
  have s: "sorted_wrt (<) active_rows \<and> sorted_wrt (<) active_cols"
  proof (cases "(cover', active_rows, active_cols, solution, solution_path)
                 = (cover, [0..<shape0 cover], [0..<shape1 cover], [], [])")
    case True
    then show ?thesis by (simp add: sorted_wrt_upt del: upt_Suc)
  next
    case False
    with assms have "solve_solve_loop_rel\<^sup>+\<^sup>+
        (Inl (cover', active_rows, active_cols, solution, solution_path))
        (Inl (cover, [0..<shape0 cover], [0..<shape1 cover], [], []))"
      by (auto simp: invoked_def nested_call_def)
    then obtain z where
      "solve_solve_loop_rel (Inl (cover', active_rows, active_cols, solution, solution_path)) z"
      by (auto dest: tranclpD)
    then show ?thesis using rel_into_solve by blast
  qed
  then have d: "distinct active_rows \<and> distinct active_cols"
    by (simp add: strict_sorted_iff)
  have "sorted_wrt (<) cands" if "candidate_rows cover' active_rows col = Inr cands" for col cands
  proof -
    from that have "cands = filter (\<lambda>r. at cover' r col \<noteq> 0) active_rows"
      by (auto simp: candidate_rows_def split: if_splits)
    with s show ?thesis by (simp add: sorted_wrt_filter)
  qed
  with s d show ?thesis by blast
qed

lemma select_sets:
  assumes "select row cover ar ac = Inr (rtr, ctr)"
  shows "set ctr = {c \<in> set ac. at cover row c \<noteq> 0}"
    and "set rtr = {r \<in> set ar. \<exists>c \<in> set ctr. at cover r c \<noteq> 0}"
  using assms by (auto simp: select_def Let_def split: if_splits)

lemma select_ok:
  assumes "ac \<noteq> []" "row < shape0 cover" "\<forall>r \<in> set ar. r < shape0 cover"
    "\<forall>c \<in> set ac. c < shape1 cover"
  shows "\<exists>rtr ctr. select row cover ar ac = Inr (rtr, ctr)"
  using assms by (simp add: select_def Let_def)

text \<open>
  Claim C4. For an active row that covers at least one active column, \<open>select\<close>
  returns as columns to remove exactly the active columns in which the row is non-zero,
  and as rows to remove exactly the active rows (the row itself among them) that are
  non-zero in one of these columns. After the two set differences, \<open>deselect\<close> with
  the returned lists restores both active lists to their contents, as sets, before the
  \<open>select\<close>.
\<close>

theorem select_deselect_restore:
  assumes "row \<in> set active_rows" and "covers cover active_cols row"
    and "\<forall>r \<in> set active_rows. r < shape0 cover"
    and "\<forall>c \<in> set active_cols. c < shape1 cover"
  shows "\<exists>rows_to_remove cols_to_remove.
           select row cover active_rows active_cols = Inr (rows_to_remove, cols_to_remove)
         \<and> set cols_to_remove = {c \<in> set active_cols. at cover row c \<noteq> 0}
         \<and> set rows_to_remove
             = {r \<in> set active_rows. \<exists>c \<in> set cols_to_remove. at cover r c \<noteq> 0}
         \<and> row \<in> set rows_to_remove
         \<and> (case deselect rows_to_remove cols_to_remove
                    (setdiff1d active_rows rows_to_remove)
                    (setdiff1d active_cols cols_to_remove) of
               (restored_rows, restored_cols) \<Rightarrow>
                 set restored_rows = set active_rows \<and> set restored_cols = set active_cols)"
proof -
  from assms(2) have ne: "active_cols \<noteq> []" by (auto simp: covers_def)
  from assms(1,3) have "row < shape0 cover" by blast
  with ne assms(3,4) obtain rtr ctr where
    s: "select row cover active_rows active_cols = Inr (rtr, ctr)"
    using select_ok by blast
  note sets = select_sets [OF s]
  from assms(2) obtain c where "c \<in> set ctr" and "at cover row c \<noteq> 0"
    unfolding covers_def sets(1) by blast
  with assms(1) have "row \<in> set rtr" unfolding sets(2) by blast
  moreover have "set (setdiff1d active_rows rtr @ rtr) = set active_rows"
    using sets(2) by (auto simp: set_setdiff1d)
  moreover have "set (setdiff1d active_cols ctr @ ctr) = set active_cols"
    using sets(1) by (auto simp: set_setdiff1d)
  ultimately show ?thesis
    using s sets by (simp add: deselect_def)
qed

definition example_cover :: matrix where
  "example_cover = \<lparr>shape1 = 3, rows = [[1, 1, 0], [0, 0, 1], [0, 0, 1]]\<rparr>"

lemma example_nested_call:
  "nested_call (example_cover, [1, 2], [2], [0], [(1, 0)])
               (example_cover, [0, 1, 2], [0, 1, 2], [], [])"
proof -
  have m: "min_col example_cover [0, 1, 2] [0, 1, 2] = Inr (0, 1)" by code_simp
  have c: "candidate_rows example_cover [0, 1, 2] 0 = Inr [0]" by code_simp
  have d: "descend 0 example_cover [0, 1, 2] [0, 1, 2] = Inr ([0], [0, 1], [1, 2], [2])"
    by code_simp
  have "solve_solve_loop_rel
          (Inr (example_cover, [0], [0, 1, 2], [0, 1, 2], [], []))
          (Inl (example_cover, [0, 1, 2], [0, 1, 2], [], []))"
    by (rule solve_solve_loop_rel.intros(1) [where b = "(0, 1)" and x = 0 and y = 1, OF _ m _ _ c])
      simp_all
  moreover have "solve_solve_loop_rel
          (Inl (example_cover, [1, 2], [2], [] @ [0], [] @ [(1, 0)]))
          (Inr (example_cover, [0], [0, 1, 2], [0, 1, 2], [], []))"
    by (rule solve_solve_loop_rel.intros(2) [OF d]) simp_all
  ultimately show ?thesis unfolding nested_call_def by auto
qed

theorem solve_terminates_witness:
  "nested_call (example_cover, [1, 2], [2], [0], [(1, 0)])
               (example_cover, [0, 1, 2], [0, 1, 2], [], [])
   \<and> terminates (example_cover, [0, 1, 2], [0, 1, 2], [], [])
   \<and> set [2::nat] \<subset> set [0, 1, 2]
   \<and> card (set [2::nat]) < card (set [0::nat, 1, 2])"
  using example_nested_call
    solve_terminates [of example_cover "[0, 1, 2]" "[0, 1, 2]" "[]" "[]"]
  by blast

theorem solve_entry_ascending_witness:
  "invoked (example_cover, [0..<shape0 example_cover], [0..<shape1 example_cover], [], [])
           (example_cover, [1, 2], [2], [0], [(1, 0)])
   \<and> sorted_wrt (<) [1::nat, 2] \<and> sorted_wrt (<) [2::nat]"
proof -
  have r: "[0..<shape0 example_cover] = [0, 1, 2]" "[0..<shape1 example_cover] = [0, 1, 2]"
    by code_simp+
  have i: "invoked (example_cover, [0..<shape0 example_cover], [0..<shape1 example_cover], [], [])
           (example_cover, [1, 2], [2], [0], [(1, 0)])"
    unfolding r invoked_def using example_nested_call by simp
  from solve_entry_ascending [OF i] i show ?thesis by blast
qed

theorem select_deselect_restore_witness:
  "\<exists>rows_to_remove cols_to_remove.
      select 0 \<lparr>shape1 = 3, rows = [[1, 0, 1], [0, 1, 0], [1, 1, 0]]\<rparr> [0, 1, 2] [0, 1, 2]
        = Inr (rows_to_remove, cols_to_remove)
    \<and> rows_to_remove = [0, 2] \<and> cols_to_remove = [0, 2]
    \<and> 0 \<in> set rows_to_remove
    \<and> (case deselect rows_to_remove cols_to_remove
               (setdiff1d [0, 1, 2] rows_to_remove) (setdiff1d [0, 1, 2] cols_to_remove) of
          (restored_rows, restored_cols) \<Rightarrow>
            set restored_rows = set [0, 1, 2] \<and> set restored_cols = set [0, 1, 2])"
proof -
  let ?M = "\<lparr>shape1 = 3, rows = [[1, 0, 1], [0, 1, 0], [1, 1, 0]]\<rparr>"
  have h1: "(0::nat) \<in> set [0, 1, 2]" by simp
  have h2: "covers ?M [0, 1, 2] 0" by code_simp
  have h3: "\<forall>r \<in> set [0, 1, 2]. r < shape0 ?M" by code_simp
  have h4: "\<forall>c \<in> set [0, 1, 2]. c < shape1 ?M" by code_simp
  have e: "select 0 ?M [0, 1, 2] [0, 1, 2] = Inr ([0, 2], [0, 2])" by code_simp
  from select_deselect_restore [OF h1 h2 h3 h4] e show ?thesis by auto
qed

theorem min_col_selects_minimum_witness:
  "min_col example_cover [0, 1, 2] [0, 1, 2]
     = Inr (0, int (count_ones example_cover [0, 1, 2] 0))
   \<and> count_ones example_cover [0, 1, 2] 0 = 1
   \<and> count_ones example_cover [0, 1, 2] 0 \<le> count_ones example_cover [0, 1, 2] 1
   \<and> count_ones example_cover [0, 1, 2] 0 \<le> count_ones example_cover [0, 1, 2] 2"
proof -
  have h1: "[0::nat, 1, 2] \<noteq> []" by simp
  have h2: "sorted_wrt (<) [0::nat, 1, 2]" by simp
  have h3: "distinct [0::nat, 1, 2]" by simp
  have h4: "\<forall>r \<in> set [0, 1, 2]. r < shape0 example_cover" by code_simp
  have h5: "\<forall>c \<in> set [0, 1, 2]. c < shape1 example_cover" by code_simp
  have h6: "\<forall>r \<in> set [0, 1, 2]. \<forall>c \<in> set [0, 1, 2].
              at example_cover r c = 0 \<or> at example_cover r c = 1" by code_simp
  have e: "min_col example_cover [0, 1, 2] [0, 1, 2] = Inr (0, 1)" by code_simp
  from min_col_selects_minimum [OF h1 h2 h3 h4 h5 h6, of "[]" "[]"] e show ?thesis by auto
qed

definition block_index :: "nat \<Rightarrow> nat \<Rightarrow> nat \<Rightarrow> nat \<Rightarrow> nat" where
  "block_index grid_width block_width row col =
     (row div block_width) * (grid_width div block_width) + (col div block_width)"

definition constraint_columns :: "nat \<Rightarrow> nat \<Rightarrow> possibility \<Rightarrow> nat list" where
  "constraint_columns grid_width block_width p =
     (case p of (row, col, digit) \<Rightarrow>
        [row * grid_width + col,
         grid_width * grid_width + row * grid_width + nat digit - 1,
         2 * grid_width * grid_width + col * grid_width + nat digit - 1,
         3 * grid_width * grid_width + block_index grid_width block_width row col * grid_width
           + nat digit - 1])"

definition cell_possibilities :: "grid \<Rightarrow> nat \<Rightarrow> nat \<Rightarrow> nat \<Rightarrow> possibility list" where
  "cell_possibilities sudoku grid_width row col =
     (if sudoku ! row ! col \<noteq> 0 then [(row, col, sudoku ! row ! col)]
      else map (\<lambda>n. (row, col, int n)) [1..<grid_width + 1])"

definition expected_possibilities :: "grid \<Rightarrow> nat \<Rightarrow> possibility list" where
  "expected_possibilities sudoku grid_width =
     concat (map (\<lambda>row. concat (map (\<lambda>col. cell_possibilities sudoku grid_width row col)
                                   [0..<grid_width]))
              [0..<grid_width])"

definition puzzle :: "grid \<Rightarrow> nat \<Rightarrow> nat \<Rightarrow> bool" where
  "puzzle sudoku grid_width block_width =
     (block_width * block_width = grid_width \<and> length sudoku = grid_width
      \<and> (\<forall>r \<in> set sudoku. length r = grid_width \<and> (\<forall>v \<in> set r. 0 \<le> v \<and> v \<le> int grid_width)))"

definition valid_possibility :: "nat \<Rightarrow> possibility \<Rightarrow> bool" where
  "valid_possibility grid_width p =
     (case p of (row, col, digit) \<Rightarrow>
        row < grid_width \<and> col < grid_width \<and> 1 \<le> digit \<and> digit \<le> int grid_width)"

definition row_vec :: "nat \<Rightarrow> nat \<Rightarrow> nat \<Rightarrow> possibility \<Rightarrow> int list" where
  "row_vec grid_width block_width C p =
     fold (\<lambda>c r. r[c := 1]) (constraint_columns grid_width block_width p) (replicate C 0)"

definition cover_of :: "nat \<Rightarrow> nat \<Rightarrow> nat \<Rightarrow> nat \<Rightarrow> possibility list \<Rightarrow> matrix" where
  "cover_of grid_width block_width N C ps =
     \<lparr>shape1 = C,
      rows = map (row_vec grid_width block_width C) ps
             @ replicate (N - length ps) (replicate C 0)\<rparr>"

lemma set_item_ok:
  assumes "r < length (rows M)" "c < shape1 M"
  shows "set_item M r (int c) v = Inr (M\<lparr>rows := (rows M)[r := (rows M ! r)[c := v]]\<rparr>)"
  using assms by (simp add: set_item_def shape0_def norm_index_def)

lemma block_idx_eq:
  assumes "bw * bw = gw" "0 < bw"
  shows "((row div bw) * gw) div bw + (col div bw) = block_index gw bw row col"
proof -
  have "((row div bw) * gw) div bw = (row div bw) * bw"
    using assms by (metis mult.assoc nonzero_mult_div_cancel_right less_numeral_extra(3))
  moreover have "gw div bw = bw" using assms by auto
  ultimately show ?thesis by (simp add: block_index_def)
qed

lemma block_index_less:
  assumes "bw * bw = gw" "row < gw" "col < gw"
  shows "block_index gw bw row col < gw"
proof -
  from assms have pos: "0 < bw" by (cases bw) auto
  have d: "gw div bw = bw" using assms(1) pos by auto
  have r: "row div bw < bw" using assms(1,2) pos
    by (metis less_mult_imp_div_less)
  have c: "col div bw < bw" using assms(1,3) pos
    by (metis less_mult_imp_div_less)
  from r have "Suc (row div bw) \<le> bw" by simp
  then have "Suc (row div bw) * bw \<le> bw * bw" by (rule mult_le_mono1)
  with c have "(row div bw) * bw + col div bw < bw * bw" by simp
  with d assms(1) show ?thesis by (simp add: block_index_def)
qed

lemma constraint_columns_less:
  assumes "bw * bw = gw" "valid_possibility gw p" "c \<in> set (constraint_columns gw bw p)"
  shows "c < 4 * gw * gw"
proof -
  obtain row col n where p: "p = (row, col, n)" by (cases p)
  from assms(2) p have v: "row < gw" "col < gw" "1 \<le> n" "n \<le> int gw"
    by (simp_all add: valid_possibility_def)
  then have n: "nat n - 1 < gw" "1 \<le> nat n" by auto
  have b: "block_index gw bw row col < gw" using block_index_less [OF assms(1) v(1,2)] .
  have m: "x * gw + y < gw * gw" if "x < gw" "y < gw" for x y
  proof -
    from that have "Suc x \<le> gw" by simp
    then have "Suc x * gw \<le> gw * gw" by (rule mult_le_mono1)
    with that show ?thesis by simp
  qed
  have c1: "row * gw + col < gw * gw" using m [OF v(1,2)] .
  have c2: "row * gw + (nat n - 1) < gw * gw" using m [OF v(1) n(1)] .
  have c3: "col * gw + (nat n - 1) < gw * gw" using m [OF v(2) n(1)] .
  have c4: "block_index gw bw row col * gw + (nat n - 1) < gw * gw" using m [OF b n(1)] .
  from assms(3) p have "c = row * gw + col \<or> c = gw * gw + row * gw + nat n - 1
      \<or> c = 2 * gw * gw + col * gw + nat n - 1
      \<or> c = 3 * gw * gw + block_index gw bw row col * gw + nat n - 1"
    by (auto simp: constraint_columns_def)
  with n(2) c1 c2 c3 c4 show ?thesis by linarith
qed


lemma set_item_row:
  assumes "r < length (rows M)" "c < shape1 M"
  shows "set_item (M\<lparr>rows := (rows M)[r := x]\<rparr>) r (int c) v
           = Inr (M\<lparr>rows := (rows M)[r := x[c := v]]\<rparr>)"
  using assms by (simp add: set_item_def shape0_def norm_index_def)

lemma add_possibility_ok:
  assumes sq: "bw * bw = gw" and v: "valid_possibility gw p"
    and r: "r < length (rows M)" and C: "shape1 M = 4 * gw * gw"
  shows "add_possibility p M r gw bw =
           Inr (M\<lparr>rows := (rows M)[r := fold (\<lambda>c row. row[c := 1])
                                         (constraint_columns gw bw p) (rows M ! r)]\<rparr>)"
proof -
  obtain row col n where p: "p = (row, col, n)" by (cases p)
  from v p have vv: "row < gw" "col < gw" "1 \<le> n" "n \<le> int gw"
    by (simp_all add: valid_possibility_def)
  from vv sq have pos: "0 < bw" by (cases bw) auto
  let ?c1 = "row * gw + col"
  let ?c2 = "gw * gw + row * gw + nat n - 1"
  let ?c3 = "2 * gw * gw + col * gw + nat n - 1"
  let ?c4 = "3 * gw * gw + block_index gw bw row col * gw + nat n - 1"
  have cols: "constraint_columns gw bw (row, col, n) = [?c1, ?c2, ?c3, ?c4]"
    by (simp add: constraint_columns_def)
  have less: "?c1 < shape1 M" "?c2 < shape1 M" "?c3 < shape1 M" "?c4 < shape1 M"
    using constraint_columns_less [OF sq v] unfolding p cols C by simp_all
  have i2: "int (gw * gw + row * gw) + n - 1 = int ?c2" using vv by auto
  have i3: "int (2 * gw * gw + col * gw) + n - 1 = int ?c3" using vv by auto
  have i4: "int (3 * gw * gw + block_index gw bw row col * gw) + n - 1 = int ?c4"
    using vv by auto
  have M: "M = M\<lparr>rows := (rows M)[r := rows M ! r]\<rparr>" by simp
  have s1: "set_item M r (int ?c1) 1 = Inr (M\<lparr>rows := (rows M)[r := (rows M ! r)[?c1 := 1]]\<rparr>)"
    using set_item_ok [OF r less(1)] .
  show ?thesis
    unfolding add_possibility_def p prod.case s1 sum.case
      i2 set_item_row [OF r less(2)] i3 set_item_row [OF r less(3)]
      block_idx_eq [OF sq pos] Let_def i4 cols
    using pos set_item_row [OF r less(4)] by simp
qed

lemma cover_of_length: "length (rows (cover_of gw bw N C ps)) = max N (length ps)"
  by (simp add: cover_of_def)

lemma emit_ok:
  assumes sq: "bw * bw = gw" and v: "valid_possibility gw p" and l: "length ps < N"
  shows "emit gw bw p (cover_of gw bw N (4 * gw * gw) ps, ps)
           = Inr (cover_of gw bw N (4 * gw * gw) (ps @ [p]), ps @ [p])"
proof -
  let ?M = "cover_of gw bw N (4 * gw * gw) ps"
  have r: "length ps < length (rows ?M)" using l by (simp add: cover_of_def)
  have C: "shape1 ?M = 4 * gw * gw" by (simp add: cover_of_def)
  have z: "rows ?M ! length ps = replicate (4 * gw * gw) 0"
    using l by (simp add: cover_of_def nth_append)
  have "replicate (N - length ps) (replicate (4 * gw * gw) (0::int))
          = replicate (4 * gw * gw) 0 # replicate (N - Suc (length ps)) (replicate (4 * gw * gw) 0)"
    using l by (cases "N - length ps") (auto simp: Suc_diff_Suc)
  then have u: "?M\<lparr>rows := (rows ?M)[length ps := row_vec gw bw (4 * gw * gw) p]\<rparr>
          = cover_of gw bw N (4 * gw * gw) (ps @ [p])"
    by (simp add: cover_of_def list_update_append)
  show ?thesis
    unfolding emit_def prod.case add_possibility_ok [OF sq v r C] z sum.case
    using u by (simp add: row_vec_def)
qed


lemma concat_singletons: "concat (map (\<lambda>x. [g x]) xs) = map g xs"
  by (induction xs) simp_all

lemma foldE_segments:
  assumes "\<And>x ps. x \<in> set xs \<Longrightarrow> length ps + length (seg x) \<le> N
              \<Longrightarrow> f x (K ps, ps) = Inr (K (ps @ seg x), ps @ seg x)"
    and "length ps + length (concat (map seg xs)) \<le> N"
  shows "foldE f xs (K ps, ps)
           = Inr (K (ps @ concat (map seg xs)), ps @ concat (map seg xs))"
  using assms
proof (induction xs arbitrary: ps)
  case Nil
  then show ?case by simp
next
  case (Cons x xs)
  have 1: "f x (K ps, ps) = Inr (K (ps @ seg x), ps @ seg x)"
    using Cons.prems by simp
  have 2: "foldE f xs (K (ps @ seg x), ps @ seg x)
             = Inr (K ((ps @ seg x) @ concat (map seg xs)), (ps @ seg x) @ concat (map seg xs))"
    using Cons.prems by (intro Cons.IH) simp_all
  show ?case using 1 2 by simp
qed

lemma puzzle_cell:
  assumes "puzzle sudoku gw bw" "row < gw" "col < gw"
  shows "get_cell sudoku row col = Inr (sudoku ! row ! col)"
    and "0 \<le> sudoku ! row ! col" and "sudoku ! row ! col \<le> int gw"
proof -
  from assms have r: "row < length sudoku" "sudoku ! row \<in> set sudoku"
    by (simp_all add: puzzle_def)
  with assms(1) have l: "length (sudoku ! row) = gw"
    and b: "\<forall>v \<in> set (sudoku ! row). 0 \<le> v \<and> v \<le> int gw"
    unfolding puzzle_def by blast+
  from l assms(3) have "sudoku ! row ! col \<in> set (sudoku ! row)" by simp
  with b show "0 \<le> sudoku ! row ! col" "sudoku ! row ! col \<le> int gw" by blast+
  from r l assms(3) show "get_cell sudoku row col = Inr (sudoku ! row ! col)"
    by (simp add: get_cell_def)
qed

lemma cell_possibilities_valid:
  assumes "puzzle sudoku gw bw" "row < gw" "col < gw"
    "p \<in> set (cell_possibilities sudoku gw row col)"
  shows "valid_possibility gw p"
  using assms(4) puzzle_cell(2,3) [OF assms(1-3)] assms(2,3)
  by (auto simp: cell_possibilities_def valid_possibility_def split: if_splits)

lemma visit_cell_ok:
  assumes pz: "puzzle sudoku gw bw" and rc: "row < gw" "col < gw"
    and l: "length ps + length (cell_possibilities sudoku gw row col) \<le> N"
  shows "visit_cell sudoku gw bw row col (cover_of gw bw N (4 * gw * gw) ps, ps)
           = Inr (cover_of gw bw N (4 * gw * gw) (ps @ cell_possibilities sudoku gw row col),
                  ps @ cell_possibilities sudoku gw row col)"
proof -
  from pz have sq: "bw * bw = gw" by (simp add: puzzle_def)
  note g = puzzle_cell(1) [OF pz rc]
  note val = cell_possibilities_valid [OF pz rc]
  show ?thesis
  proof (cases "sudoku ! row ! col \<noteq> 0")
    case True
    then have cp: "cell_possibilities sudoku gw row col = [(row, col, sudoku ! row ! col)]"
      by (simp add: cell_possibilities_def)
    have "valid_possibility gw (row, col, sudoku ! row ! col)" using val cp by simp
    moreover have "length ps < N" using l cp by simp
    ultimately show ?thesis
      using True emit_ok [OF sq] by (simp add: visit_cell_def g cp)
  next
    case False
    then have cp: "cell_possibilities sudoku gw row col
                     = map (\<lambda>n. (row, col, n)) (map int [1..<gw + 1])"
      by (simp add: cell_possibilities_def comp_def del: upt_Suc)
    have "foldE (\<lambda>n. emit gw bw (row, col, n)) (map int [1..<gw + 1])
            (cover_of gw bw N (4 * gw * gw) ps, ps)
          = Inr (cover_of gw bw N (4 * gw * gw)
                   (ps @ concat (map (\<lambda>n. [(row, col, n)]) (map int [1..<gw + 1]))),
                 ps @ concat (map (\<lambda>n. [(row, col, n)]) (map int [1..<gw + 1])))"
    proof (rule foldE_segments)
      fix n and qs :: "possibility list"
      assume n: "n \<in> set (map int [1..<gw + 1])"
        and "length qs + length [(row, col, n)] \<le> N"
      then have lq: "length qs < N" by simp
      have "(row, col, n) \<in> set (cell_possibilities sudoku gw row col)"
        using n unfolding cp by (auto simp del: upt_Suc)
      then have "valid_possibility gw (row, col, n)" by (rule val)
      then show "emit gw bw (row, col, n) (cover_of gw bw N (4 * gw * gw) qs, qs)
          = Inr (cover_of gw bw N (4 * gw * gw) (qs @ [(row, col, n)]), qs @ [(row, col, n)])"
        using lq by (rule emit_ok [OF sq])
    next
      have "concat (map (\<lambda>n. [(row, col, n)]) (map int [1..<gw + 1]))
              = cell_possibilities sudoku gw row col"
        unfolding cp by (rule concat_singletons)
      then show "length ps + length (concat (map (\<lambda>n. [(row, col, n)]) (map int [1..<gw + 1]))) \<le> N"
        using l by simp
    qed
    moreover have "concat (map (\<lambda>n. [(row, col, n)]) (map int [1..<gw + 1]))
              = cell_possibilities sudoku gw row col"
      unfolding cp by (rule concat_singletons)
    ultimately show ?thesis using False by (simp add: visit_cell_def g del: upt_Suc)
  qed
qed


definition row_possibilities :: "grid \<Rightarrow> nat \<Rightarrow> nat \<Rightarrow> possibility list" where
  "row_possibilities sudoku gw row =
     concat (map (\<lambda>col. cell_possibilities sudoku gw row col) [0..<gw])"

lemma expected_possibilities_rows:
  "expected_possibilities sudoku gw = concat (map (row_possibilities sudoku gw) [0..<gw])"
  by (simp add: expected_possibilities_def row_possibilities_def [abs_def])

lemma length_cell_possibilities:
  "length (cell_possibilities sudoku gw row col) = (if sudoku ! row ! col \<noteq> 0 then 1 else gw)"
  by (simp add: cell_possibilities_def)

lemma count_row:
  "int (sum_list (map (\<lambda>v. if v \<noteq> 0 then 1 else gw) (r :: int list)))
     = int (length (filter (\<lambda>v. v \<noteq> 0) r))
       + (int (length r) - int (length (filter (\<lambda>v. v \<noteq> 0) r))) * int gw"
  by (induction r) (simp_all add: algebra_simps)

lemma length_row_possibilities:
  assumes "length (sudoku ! row) = gw"
  shows "int (length (row_possibilities sudoku gw row))
     = int (length (filter (\<lambda>v. v \<noteq> 0) (sudoku ! row)))
       + (int gw - int (length (filter (\<lambda>v. v \<noteq> 0) (sudoku ! row)))) * int gw"
proof -
  have "map (\<lambda>col. if sudoku ! row ! col \<noteq> 0 then 1 else gw) [0..<length (sudoku ! row)]
          = map (\<lambda>v. if v \<noteq> 0 then 1 else gw) (sudoku ! row)"
    by (rule nth_equalityI) simp_all
  then have "length (row_possibilities sudoku gw row)
          = sum_list (map (\<lambda>v. if v \<noteq> 0 then 1 else gw) (sudoku ! row))"
    using assms
    by (simp add: row_possibilities_def length_concat comp_def length_cell_possibilities)
  then show ?thesis using count_row [of gw "sudoku ! row"] assms by simp
qed

lemma count_rows:
  assumes "\<forall>r \<in> set rs. length r = gw"
  shows "int (sum_list (map (\<lambda>r. nat (int (length (filter (\<lambda>v. v \<noteq> 0) r))
                 + (int gw - int (length (filter (\<lambda>v. v \<noteq> 0) r))) * int gw)) rs))
     = int (count_nonzero rs) + (int (length rs * gw) - int (count_nonzero rs)) * int gw"
  using assms
proof (induction rs)
  case Nil
  then show ?case by (simp add: count_nonzero_def)
next
  case (Cons r rs)
  have "length (filter (\<lambda>v. v \<noteq> 0) r) \<le> gw"
    using Cons.prems length_filter_le [of "\<lambda>v. v \<noteq> 0" r] by simp
  then have nn: "0 \<le> int (length (filter (\<lambda>v. v \<noteq> 0) r))
                 + (int gw - int (length (filter (\<lambda>v. v \<noteq> 0) r))) * int gw"
    by simp
  have cn: "count_nonzero (r # rs) = length (filter (\<lambda>v. v \<noteq> 0) r) + count_nonzero rs"
    by (simp add: count_nonzero_def)
  from Cons have IH: "int (sum_list (map (\<lambda>r. nat (int (length (filter (\<lambda>v. v \<noteq> 0) r))
                 + (int gw - int (length (filter (\<lambda>v. v \<noteq> 0) r))) * int gw)) rs))
     = int (count_nonzero rs) + (int (length rs * gw) - int (count_nonzero rs)) * int gw"
    by simp
  let ?h = "\<lambda>r. nat (int (length (filter (\<lambda>v. v \<noteq> 0) r))
                 + (int gw - int (length (filter (\<lambda>v. v \<noteq> 0) r))) * int gw)"
  have "int (sum_list (map ?h (r # rs))) = int (?h r) + int (sum_list (map ?h rs))"
    by simp
  also have "int (?h r) = int (length (filter (\<lambda>v. v \<noteq> 0) r))
                 + (int gw - int (length (filter (\<lambda>v. v \<noteq> 0) r))) * int gw"
    using nn by simp
  also note IH
  finally show ?case unfolding cn by (simp add: algebra_simps)
qed

lemma length_expected_possibilities:
  assumes pz: "puzzle sudoku gw bw"
  shows "int (length (expected_possibilities sudoku gw))
     = (int (gw * gw) - int (count_nonzero sudoku)) * int gw + int (count_nonzero sudoku)"
proof -
  from pz have len: "length sudoku = gw" and rows: "\<forall>r \<in> set sudoku. length r = gw"
    unfolding puzzle_def by blast+
  let ?h = "\<lambda>r. nat (int (length (filter (\<lambda>v. v \<noteq> 0) r))
                 + (int gw - int (length (filter (\<lambda>v. v \<noteq> 0) r))) * int gw)"
  have "map (\<lambda>row. length (row_possibilities sudoku gw row)) [0..<length sudoku]
          = map ?h sudoku"
  proof (rule nth_equalityI)
    show "length (map (\<lambda>row. length (row_possibilities sudoku gw row)) [0..<length sudoku])
            = length (map ?h sudoku)" by simp
  next
    fix i assume "i < length (map (\<lambda>row. length (row_possibilities sudoku gw row)) [0..<length sudoku])"
    then have i: "i < length sudoku" by simp
    then have "length (sudoku ! i) = gw" using rows by simp
    from length_row_possibilities [OF this]
    have "length (row_possibilities sudoku gw i) = ?h (sudoku ! i)" by simp
    with i show "map (\<lambda>row. length (row_possibilities sudoku gw row)) [0..<length sudoku] ! i
            = map ?h sudoku ! i" by simp
  qed
  then have "length (expected_possibilities sudoku gw) = sum_list (map ?h sudoku)"
    unfolding expected_possibilities_rows
    by (simp add: length_concat comp_def len)
  then show ?thesis using count_rows [OF rows] len by (simp add: algebra_simps)
qed


lemma row_loop_ok:
  assumes pz: "puzzle sudoku gw bw" and r: "row < gw"
    and l: "length ps + length (row_possibilities sudoku gw row) \<le> N"
  shows "foldE (\<lambda>col. visit_cell sudoku gw bw row col) [0..<gw]
           (cover_of gw bw N (4 * gw * gw) ps, ps)
         = Inr (cover_of gw bw N (4 * gw * gw) (ps @ row_possibilities sudoku gw row),
                ps @ row_possibilities sudoku gw row)"
  unfolding row_possibilities_def
proof (rule foldE_segments)
  fix col and qs :: "possibility list"
  assume "col \<in> set [0..<gw]"
    and "length qs + length (cell_possibilities sudoku gw row col) \<le> N"
  then show "visit_cell sudoku gw bw row col (cover_of gw bw N (4 * gw * gw) qs, qs)
      = Inr (cover_of gw bw N (4 * gw * gw) (qs @ cell_possibilities sudoku gw row col),
             qs @ cell_possibilities sudoku gw row col)"
    using visit_cell_ok [OF pz r] by simp
next
  show "length ps + length (concat (map (cell_possibilities sudoku gw row) [0..<gw])) \<le> N"
    using l by (simp add: row_possibilities_def)
qed

lemma create_cover_eq:
  assumes pz: "puzzle sudoku gw bw"
  shows "create_cover sudoku gw bw
           = Inr (cover_of gw bw (length (expected_possibilities sudoku gw)) (4 * gw * gw)
                    (expected_possibilities sudoku gw),
                  expected_possibilities sudoku gw)"
proof -
  let ?E = "expected_possibilities sudoku gw"
  let ?N = "length ?E"
  from pz have len: "length sudoku = gw" by (simp add: puzzle_def)
  note n = length_expected_possibilities [OF pz, symmetric]
  have z: "np_zeros ?N (4 * gw * gw) = cover_of gw bw ?N (4 * gw * gw) []"
    by (simp add: np_zeros_def cover_of_def)
  have "foldE (\<lambda>row. foldE (\<lambda>col. visit_cell sudoku gw bw row col) [0..<gw]) [0..<gw]
          (cover_of gw bw ?N (4 * gw * gw) [], [])
        = Inr (cover_of gw bw ?N (4 * gw * gw)
                 ([] @ concat (map (row_possibilities sudoku gw) [0..<gw])),
               [] @ concat (map (row_possibilities sudoku gw) [0..<gw]))"
  proof (rule foldE_segments)
    fix row and qs :: "possibility list"
    assume "row \<in> set [0..<gw]"
      and "length qs + length (row_possibilities sudoku gw row) \<le> ?N"
    then show "foldE (\<lambda>col. visit_cell sudoku gw bw row col) [0..<gw]
                 (cover_of gw bw ?N (4 * gw * gw) qs, qs)
      = Inr (cover_of gw bw ?N (4 * gw * gw) (qs @ row_possibilities sudoku gw row),
             qs @ row_possibilities sudoku gw row)"
      using row_loop_ok [OF pz] by simp
  next
    show "length ([] :: possibility list)
            + length (concat (map (row_possibilities sudoku gw) [0..<gw])) \<le> ?N"
      by (simp add: expected_possibilities_rows)
  qed
  then show ?thesis
    unfolding create_cover_def Let_def len n
    by (simp add: z expected_possibilities_rows [symmetric])
qed

lemma fold_update_nth:
  "c < length b \<Longrightarrow>
     fold (\<lambda>c r. r[c := 1]) cs b ! c = (if c \<in> set cs then (1::int) else b ! c)"
proof (induction cs arbitrary: b)
  case Nil
  then show ?case by simp
next
  case (Cons a cs)
  then have "fold (\<lambda>c r. r[c := 1]) cs (b[a := 1]) ! c
               = (if c \<in> set cs then 1 else b[a := 1] ! c)"
    by simp
  with Cons.prems show ?case by (auto simp: nth_list_update)
qed

lemma row_vec_nth:
  "c < C \<Longrightarrow> row_vec gw bw C p ! c = (if c \<in> set (constraint_columns gw bw p) then 1 else 0)"
  by (simp add: row_vec_def fold_update_nth)

text \<open>
  Claim C2. For a puzzle (a square grid of side \<open>grid_width\<close> with cells in
  \<open>0..grid_width\<close>, and \<open>block_width\<^sup>2 = grid_width\<close>), \<open>create_cover\<close> returns
  the possibilities in row-major cell order, one (the existing digit) for a filled cell
  and the digits \<open>1..grid_width\<close> in ascending order for an empty one; row \<open>i\<close> of
  the cover holds 1 in the four constraint columns of possibility \<open>i\<close> and 0 in every
  other column.
\<close>

theorem create_cover_layout:
  assumes "puzzle sudoku grid_width block_width"
  shows "\<exists>cover possibilities.
           create_cover sudoku grid_width block_width = Inr (cover, possibilities)
         \<and> possibilities = expected_possibilities sudoku grid_width
         \<and> shape0 cover = length possibilities
         \<and> shape1 cover = 4 * grid_width * grid_width
         \<and> (\<forall>i < length possibilities. \<forall>c < 4 * grid_width * grid_width.
               at cover i c
                 = (if c \<in> set (constraint_columns grid_width block_width (possibilities ! i))
                    then 1 else 0))"
proof -
  let ?E = "expected_possibilities sudoku grid_width"
  let ?M = "cover_of grid_width block_width (length ?E) (4 * grid_width * grid_width) ?E"
  have "shape0 ?M = length ?E" by (simp add: shape0_def cover_of_def)
  moreover have "shape1 ?M = 4 * grid_width * grid_width" by (simp add: cover_of_def)
  moreover have "at ?M i c
      = (if c \<in> set (constraint_columns grid_width block_width (?E ! i)) then 1 else 0)"
    if "i < length ?E" "c < 4 * grid_width * grid_width" for i c
    using that by (simp add: at_def cover_of_def row_vec_nth)
  ultimately show ?thesis using create_cover_eq [OF assms] by blast
qed

definition example_grid :: grid where
  "example_grid = [[1, 0, 0, 0], [0, 0, 3, 0], [0, 4, 0, 0], [0, 0, 0, 2]]"


theorem create_cover_layout_witness:
  "puzzle example_grid 4 2
   \<and> (\<exists>cover possibilities.
           create_cover example_grid 4 2 = Inr (cover, possibilities)
         \<and> possibilities = expected_possibilities example_grid 4
         \<and> length possibilities = 52
         \<and> shape0 cover = length possibilities
         \<and> shape1 cover = 4 * 4 * 4
         \<and> (\<forall>i < length possibilities. \<forall>c < 4 * 4 * 4.
               at cover i c
                 = (if c \<in> set (constraint_columns 4 2 (possibilities ! i))
                    then 1 else 0)))"
proof -
  have h: "puzzle example_grid 4 2" by code_simp
  have l: "length (expected_possibilities example_grid 4) = 52" by code_simp
  from create_cover_layout [OF h] h l show ?thesis by auto
qed

lemma solve_extends:
  "solve M ar ac sol path = Inr (b, sol', path') \<Longrightarrow>
     (\<not> b \<longrightarrow> sol' = sol) \<and> (\<exists>new. sol' = sol @ new) \<and> (\<exists>ext. path' = path @ ext)"
  and solve_loop_extends:
  "solve_loop M cands ar ac sol path = Inr (b, sol', path') \<Longrightarrow>
     (\<not> b \<longrightarrow> sol' = sol) \<and> (\<exists>new. sol' = sol @ new) \<and> (\<exists>ext. path' = path @ ext)"
proof (induction M ar ac sol path and M cands ar ac sol path
    arbitrary: b sol' path' and b sol' path' rule: solve_solve_loop.induct)
  case (1 cover active_rows active_cols solution solution_path)
  then show ?case
    by (auto simp: solve.simps split: if_splits sum.splits prod.splits)
next
  case (2 cover active_rows active_cols solution solution_path)
  then show ?case by simp
next
  case (3 cover row rest active_rows active_cols solution solution_path)
  from "3.prems" obtain rtr ctr ar1 ac1 where
    d: "descend row cover active_rows active_cols = Inr (rtr, ctr, ar1, ac1)"
    by (auto split: sum.splits)
  from "3.prems" d obtain s sol2 path2 where
    r: "solve cover ar1 ac1 (solution @ [row]) (solution_path @ [(1, row)]) = Inr (s, sol2, path2)"
    by (auto split: sum.splits)
  note IH1 = "3.IH"(1) [OF d refl refl refl r]
  show ?case
  proof (cases s)
    case True
    with "3.prems" d r IH1 show ?thesis by auto
  next
    case False
    with IH1 have sol2: "sol2 = solution @ [row]" by simp
    from IH1 obtain ext where ext: "path2 = solution_path @ [(1, row)] @ ext" by auto
    obtain ar2 ac2 where ds: "deselect rtr ctr ar1 ac1 = (ar2, ac2)" by (cases "deselect rtr ctr ar1 ac1")
    from "3.prems" d r False ds sol2
    have l: "solve_loop cover rest ar2 ac2 solution (path2 @ [(0, row)]) = Inr (b, sol', path')"
      by simp
    have "(\<not> b \<longrightarrow> sol' = butlast sol2) \<and> (\<exists>new. sol' = butlast sol2 @ new)
            \<and> (\<exists>ext. path' = (path2 @ [(0, row)]) @ ext)"
      using "3.IH"(2) [OF d refl refl refl r refl refl False ds [symmetric]] l sol2 by simp
    with sol2 ext show ?thesis by auto
  qed
qed


definition hits :: "matrix \<Rightarrow> nat list \<Rightarrow> nat \<Rightarrow> nat" where
  "hits cover solution c = length (filter (\<lambda>r. at cover r c \<noteq> 0) solution)"

definition search_inv :: "matrix \<Rightarrow> nat list \<Rightarrow> nat list \<Rightarrow> nat list \<Rightarrow> bool" where
  "search_inv cover ar ac sol =
     ((\<forall>r \<in> set ar. r < shape0 cover) \<and> (\<forall>c \<in> set ac. c < shape1 cover)
      \<and> (\<forall>r \<in> set sol. r < shape0 cover)
      \<and> (\<forall>c < shape1 cover. hits cover sol c = (if c \<in> set ac then 0 else 1))
      \<and> (\<forall>r \<in> set ar. \<forall>c < shape1 cover. at cover r c \<noteq> 0 \<longrightarrow> c \<in> set ac))"

lemma search_inv_cong:
  "set ar = set ar' \<Longrightarrow> set ac = set ac' \<Longrightarrow> search_inv M ar ac sol = search_inv M ar' ac' sol"
  by (simp add: search_inv_def)

lemma descend_ok:
  assumes "search_inv M ar ac sol" "row \<in> set ar" "ac \<noteq> []"
  shows "\<exists>rtr ctr ar1 ac1. descend row M ar ac = Inr (rtr, ctr, ar1, ac1)"
proof -
  from assms(1) have "\<forall>r \<in> set ar. r < shape0 M" "\<forall>c \<in> set ac. c < shape1 M"
    unfolding search_inv_def by blast+
  moreover from this assms(2) have "row < shape0 M" by blast
  ultimately obtain rtr ctr where "select row M ar ac = Inr (rtr, ctr)"
    using select_ok [OF assms(3)] by blast
  then show ?thesis by (simp add: descend_def)
qed

lemma descend_sets:
  assumes "descend row M ar ac = Inr (rtr, ctr, ar1, ac1)"
  shows "set ctr = {c \<in> set ac. at M row c \<noteq> 0}"
    and "set rtr = {r \<in> set ar. \<exists>c \<in> set ctr. at M r c \<noteq> 0}"
    and "set ac1 = set ac - set ctr" and "set ar1 = set ar - set rtr"
proof -
  from assms have s: "select row M ar ac = Inr (rtr, ctr)"
    and e: "ar1 = setdiff1d ar rtr" "ac1 = setdiff1d ac ctr"
    by (auto simp: descend_def split: sum.splits)
  show "set ctr = {c \<in> set ac. at M row c \<noteq> 0}" using select_sets(1) [OF s] .
  show "set rtr = {r \<in> set ar. \<exists>c \<in> set ctr. at M r c \<noteq> 0}" using select_sets(2) [OF s] .
  show "set ac1 = set ac - set ctr" "set ar1 = set ar - set rtr"
    by (simp_all add: e set_setdiff1d)
qed

lemma search_inv_descend:
  assumes inv: "search_inv M ar ac sol" and row: "row \<in> set ar"
    and d: "descend row M ar ac = Inr (rtr, ctr, ar1, ac1)"
  shows "search_inv M ar1 ac1 (sol @ [row])"
proof -
  note s = descend_sets [OF d]
  from inv have rng: "\<forall>r \<in> set ar. r < shape0 M" "\<forall>c \<in> set ac. c < shape1 M"
      "\<forall>r \<in> set sol. r < shape0 M"
    and h: "\<And>c. c < shape1 M \<Longrightarrow> hits M sol c = (if c \<in> set ac then 0 else 1)"
    and a: "\<And>r c. r \<in> set ar \<Longrightarrow> c < shape1 M \<Longrightarrow> at M r c \<noteq> 0 \<Longrightarrow> c \<in> set ac"
    by (simp_all add: search_inv_def)
  have h': "hits M (sol @ [row]) c = (if c \<in> set ac1 then 0 else 1)" if c: "c < shape1 M" for c
  proof (cases "at M row c \<noteq> 0")
    case True
    then have "c \<in> set ac" using a [OF row c] by simp
    with True have "c \<in> set ctr" by (simp add: s(1))
    with True h [OF c] \<open>c \<in> set ac\<close> show ?thesis by (simp add: hits_def s(3))
  next
    case False
    then have "c \<notin> set ctr" by (simp add: s(1))
    with False h [OF c] show ?thesis by (simp add: hits_def s(3))
  qed
  have a': "c \<in> set ac1" if "r \<in> set ar1" "c < shape1 M" "at M r c \<noteq> 0" for r c
  proof -
    from that have r: "r \<in> set ar" "r \<notin> set rtr" by (simp_all add: s(4))
    then have "c \<in> set ac" using a that by blast
    moreover have "c \<notin> set ctr" using r that(3) by (auto simp: s(2))
    ultimately show ?thesis by (simp add: s(3))
  qed
  have "\<forall>r \<in> set ar1. r < shape0 M" using rng(1) by (simp add: s(4))
  moreover have "\<forall>c \<in> set ac1. c < shape1 M" using rng(2) by (simp add: s(3))
  moreover have "\<forall>r \<in> set (sol @ [row]). r < shape0 M" using rng(1,3) row by simp
  ultimately show ?thesis
    unfolding search_inv_def using h' a' by blast
qed

lemma solve_inv:
  "search_inv M ar ac sol \<Longrightarrow>
     \<exists>b sol' path'. solve M ar ac sol path = Inr (b, sol', path')
       \<and> (b \<longrightarrow> (\<forall>c < shape1 M. hits M sol' c = 1) \<and> (\<forall>r \<in> set sol'. r < shape0 M))"
  and solve_loop_inv:
  "search_inv M ar ac sol \<Longrightarrow> ac \<noteq> [] \<Longrightarrow> set cands \<subseteq> set ar \<Longrightarrow>
     \<exists>b sol' path'. solve_loop M cands ar ac sol path = Inr (b, sol', path')
       \<and> (b \<longrightarrow> (\<forall>c < shape1 M. hits M sol' c = 1) \<and> (\<forall>r \<in> set sol'. r < shape0 M))"
proof (induction M ar ac sol path and M cands ar ac sol path rule: solve_solve_loop.induct)
  case (1 cover active_rows active_cols solution solution_path)
  note inv = "1.prems"
  show ?case
  proof (cases "active_cols = []")
    case True
    with inv show ?thesis by (auto simp: search_inv_def solve.simps)
  next
    case False
    from inv have rng: "\<forall>r \<in> set active_rows. r < shape0 cover"
        "\<forall>c \<in> set active_cols. c < shape1 cover"
      by (simp_all add: search_inv_def)
    obtain col count where m: "min_col cover active_rows active_cols = Inr (col, count)"
      using min_col_eq [OF False rng] by blast
    have col: "col \<in> set active_cols" using min_col_in_active [OF m] .
    then have c: "candidate_rows cover active_rows col
                    = Inr (filter (\<lambda>r. at cover r col \<noteq> 0) active_rows)"
      using rng by (simp add: candidate_rows_def)
    show ?thesis
    proof (cases "count = 0")
      case True
      with False m show ?thesis by (auto simp: solve.simps)
    next
      case nz: False
      have "\<exists>b sol' path'.
          solve_loop cover (filter (\<lambda>r. at cover r col \<noteq> 0) active_rows) active_rows active_cols
            solution solution_path = Inr (b, sol', path')
          \<and> (b \<longrightarrow> (\<forall>c < shape1 cover. hits cover sol' c = 1)
                   \<and> (\<forall>r \<in> set sol'. r < shape0 cover))"
        using "1.IH" [OF _ m refl nz c inv False] False by simp
      with False m nz c show ?thesis by (simp add: solve.simps)
    qed
  qed
next
  case (2 cover active_rows active_cols solution solution_path)
  then show ?case by auto
next
  case (3 cover row rest active_rows active_cols solution solution_path)
  note inv = "3.prems"(1) and ne = "3.prems"(2) and sub = "3.prems"(3)
  from sub have row: "row \<in> set active_rows" by simp
  obtain rtr ctr ar1 ac1 where
    d: "descend row cover active_rows active_cols = Inr (rtr, ctr, ar1, ac1)"
    using descend_ok [OF inv row ne] by blast
  have inv1: "search_inv cover ar1 ac1 (solution @ [row])"
    using search_inv_descend [OF inv row d] .
  from "3.IH"(1) [OF d refl refl refl inv1] obtain s sol2 path2 where
    r: "solve cover ar1 ac1 (solution @ [row]) (solution_path @ [(1, row)]) = Inr (s, sol2, path2)"
    and post: "s \<longrightarrow> (\<forall>c < shape1 cover. hits cover sol2 c = 1)
                   \<and> (\<forall>r \<in> set sol2. r < shape0 cover)"
    by blast
  show ?case
  proof (cases s)
    case True
    have "solve_loop cover (row # rest) active_rows active_cols solution solution_path
            = Inr (True, sol2, path2)"
      using d r True by simp
    with post True show ?thesis by blast
  next
    case False
    with solve_extends [OF r] have sol2: "sol2 = solution @ [row]" by simp
    note s = descend_sets [OF d]
    have sets: "set (ar1 @ rtr) = set active_rows" "set (ac1 @ ctr) = set active_cols"
      using s by auto
    have inv2: "search_inv cover (ar1 @ rtr) (ac1 @ ctr) solution"
      using inv search_inv_cong [OF sets] by simp
    have "set (ac1 @ ctr) \<noteq> {}" unfolding sets(2) using ne by simp
    then have ne2: "ac1 @ ctr \<noteq> []" by (simp del: set_append)
    have sub2: "set rest \<subseteq> set (ar1 @ rtr)" unfolding sets(1) using sub by simp
    have ds: "(ar1 @ rtr, ac1 @ ctr) = deselect rtr ctr ar1 ac1" by (simp add: deselect_def)
    have b: "butlast sol2 = solution" by (simp add: sol2)
    have step: "solve_loop cover (row # rest) active_rows active_cols solution solution_path
            = solve_loop cover rest (ar1 @ rtr) (ac1 @ ctr) solution (path2 @ [(0, row)])"
      using d r False by (simp add: deselect_def b)
    from "3.IH"(2) [OF d refl refl refl r refl refl False ds inv2 [folded b] ne2 sub2]
    show ?thesis unfolding step b .
  qed
qed

lemma search_inv_initial: "search_inv M [0..<shape0 M] [0..<shape1 M] []"
  unfolding search_inv_def hits_def by simp

text \<open>The cells of the rows, the columns and the blocks of a grid.\<close>

definition row_cells :: "nat \<Rightarrow> nat \<Rightarrow> (nat \<times> nat) list" where
  "row_cells grid_width r = map (\<lambda>c. (r, c)) [0..<grid_width]"

definition col_cells :: "nat \<Rightarrow> nat \<Rightarrow> (nat \<times> nat) list" where
  "col_cells grid_width c = map (\<lambda>r. (r, c)) [0..<grid_width]"

definition block_cells :: "nat \<Rightarrow> nat \<Rightarrow> nat \<Rightarrow> (nat \<times> nat) list" where
  "block_cells grid_width block_width b =
     filter (\<lambda>(r, c). block_index grid_width block_width r c = b)
       (List.product [0..<grid_width] [0..<grid_width])"

definition units :: "nat \<Rightarrow> nat \<Rightarrow> (nat \<times> nat) list list" where
  "units grid_width block_width =
     map (row_cells grid_width) [0..<grid_width]
     @ map (col_cells grid_width) [0..<grid_width]
     @ map (block_cells grid_width block_width) [0..<grid_width]"

definition solved_grid :: "grid \<Rightarrow> nat \<Rightarrow> nat \<Rightarrow> bool" where
  "solved_grid g grid_width block_width =
     (length g = grid_width \<and> (\<forall>r \<in> set g. length r = grid_width)
      \<and> (\<forall>u \<in> set (units grid_width block_width).
           \<forall>d \<in> set (map int [1..<grid_width + 1]).
             count_list (map (\<lambda>(r, c). g ! r ! c) u) d = 1))"


lemma filter_single:
  assumes "distinct xs" "x \<in> set xs" "P x" "\<And>y. y \<in> set xs \<Longrightarrow> P y \<Longrightarrow> y = x"
  shows "filter P xs = [x]"
  using assms
proof (induction xs)
  case Nil
  then show ?case by simp
next
  case (Cons a xs)
  show ?case
  proof (cases "a = x")
    case True
    then have "x \<notin> set xs" using Cons.prems(1) by simp
    then have "filter P xs = []" using Cons.prems(4) by (auto simp: filter_empty_conv)
    with True Cons.prems(3) show ?thesis by simp
  next
    case False
    then have "\<not> P a" using Cons.prems(4) [of a] by auto
    moreover have "filter P xs = [x]"
      using Cons.prems False by (intro Cons.IH) auto
    ultimately show ?thesis by simp
  qed
qed

lemma length_filter_1:
  "length (filter P xs) = 1 \<Longrightarrow> \<exists>x. filter P xs = [x]"
  by (cases "filter P xs") auto

lemma filter_singleD:
  assumes "filter P xs = [x]"
  shows "x \<in> set xs" "P x" "\<And>y. y \<in> set xs \<Longrightarrow> P y \<Longrightarrow> y = x"
proof -
  have m: "\<And>y. y \<in> set (filter P xs) \<longleftrightarrow> y = x" unfolding assms by simp
  from m [of x] show "x \<in> set xs" "P x" by simp_all
  fix y assume "y \<in> set xs" "P y"
  then have "y \<in> set (filter P xs)" by simp
  then show "y = x" using m by simp
qed

text \<open>
  A unit holds a digit once when every cell of the unit is covered by one selected
  possibility, whose digit the cell holds, and one selected possibility puts the digit
  into the unit.
\<close>

lemma unit_digit_once:
  fixes S :: "'p list" and cell :: "'p \<Rightarrow> 'k" and digit :: "'p \<Rightarrow> int"
  assumes dist: "distinct cells"
    and h1: "\<And>k. k \<in> set cells \<Longrightarrow> \<exists>p. filter (\<lambda>p. cell p = k) S = [p] \<and> F k = digit p"
    and h2: "length (filter (\<lambda>p. cell p \<in> set cells \<and> digit p = d) S) = 1"
  shows "count_list (map F cells) d = 1"
proof -
  from h2 obtain p0 where p0: "filter (\<lambda>p. cell p \<in> set cells \<and> digit p = d) S = [p0]"
    using length_filter_1 by blast
  note P0 = filter_singleD [OF p0]
  let ?k0 = "cell p0"
  have k0: "?k0 \<in> set cells" using P0(2) by simp
  have Fk0: "F ?k0 = d"
  proof -
    from h1 [OF k0] obtain p where p: "filter (\<lambda>p. cell p = ?k0) S = [p]" "F ?k0 = digit p"
      by blast
    have "p0 = p" using filter_singleD(3) [OF p(1) P0(1) refl] .
    moreover have "digit p0 = d" using P0(2) by blast
    ultimately show ?thesis using p(2) by simp
  qed
  have uniq: "k = ?k0" if k: "k \<in> set cells" "F k = d" for k
  proof -
    from h1 [OF k(1)] obtain p where p: "filter (\<lambda>p. cell p = k) S = [p]" "F k = digit p"
      by blast
    note P = filter_singleD [OF p(1)]
    have "cell p \<in> set cells \<and> digit p = d" using P(2) k p(2) by simp
    then have "p = p0" using P0(3) [OF P(1)] by blast
    with P(2) show ?thesis by simp
  qed
  have "filter (\<lambda>k. F k = d) cells = [?k0]"
    using dist k0 Fk0 uniq by (rule filter_single)
  then have "length (filter (\<lambda>k. F k = d) cells) = 1" by simp
  moreover have "count_list (map F xs) d = length (filter (\<lambda>k. F k = d) xs)" for xs
    by (induction xs) simp_all
  ultimately show ?thesis by simp
qed

definition cell_of :: "possibility \<Rightarrow> nat \<times> nat" where
  "cell_of p = (fst p, fst (snd p))"

definition digit_of :: "possibility \<Rightarrow> int" where
  "digit_of p = snd (snd p)"

lemma enc_less:
  fixes gw :: nat
  assumes "x < gw" "y < gw"
  shows "x * gw + y < gw * gw"
proof -
  from assms have "Suc x \<le> gw" by simp
  then have "Suc x * gw \<le> gw * gw" by (rule mult_le_mono1)
  with assms show ?thesis by simp
qed

lemma enc_inj:
  fixes gw :: nat
  assumes "y < gw" "y' < gw" "x * gw + y = x' * gw + y'"
  shows "x = x' \<and> y = y'"
proof -
  have "(x * gw + y) div gw = x" "(x * gw + y) mod gw = y" using assms(1) by simp_all
  moreover have "(x' * gw + y') div gw = x'" "(x' * gw + y') mod gw = y'"
    using assms(2) by simp_all
  ultimately show ?thesis using assms(3) by metis
qed

lemma constraint_columns_normal:
  assumes "valid_possibility gw (r, c, d)"
  shows "constraint_columns gw bw (r, c, d) =
           [r * gw + c,
            gw * gw + (r * gw + (nat d - 1)),
            2 * (gw * gw) + (c * gw + (nat d - 1)),
            3 * (gw * gw) + (block_index gw bw r c * gw + (nat d - 1))]"
proof -
  from assms have "1 \<le> d" by (simp add: valid_possibility_def)
  then have "1 \<le> nat d" by linarith
  then show ?thesis by (simp add: constraint_columns_def mult.assoc add.assoc)
qed

lemma column_bands:
  assumes sq: "bw * bw = gw" and v: "valid_possibility gw (r, c, d)"
  shows "r * gw + c < gw * gw" "r * gw + (nat d - 1) < gw * gw"
    "c * gw + (nat d - 1) < gw * gw" "block_index gw bw r c * gw + (nat d - 1) < gw * gw"
    "nat d - 1 < gw"
proof -
  from v have rc: "r < gw" "c < gw" and k: "nat d - 1 < gw"
    by (auto simp: valid_possibility_def)
  show "nat d - 1 < gw" by (rule k)
  show "r * gw + c < gw * gw" using enc_less [OF rc] .
  show "r * gw + (nat d - 1) < gw * gw" using enc_less [OF rc(1) k] .
  show "c * gw + (nat d - 1) < gw * gw" using enc_less [OF rc(2) k] .
  show "block_index gw bw r c * gw + (nat d - 1) < gw * gw"
    using enc_less [OF block_index_less [OF sq rc] k] .
qed

lemma digit_pred:
  assumes "1 \<le> d" "1 \<le> d'" shows "nat d - 1 = nat d' - 1 \<longleftrightarrow> d = d'"
  using assms by auto

lemma cell_column_iff:
  assumes sq: "bw * bw = gw" and v: "valid_possibility gw p" and r: "r < gw" "c < gw"
  shows "r * gw + c \<in> set (constraint_columns gw bw p) \<longleftrightarrow> cell_of p = (r, c)"
proof -
  obtain r0 c0 d0 where p: "p = (r0, c0, d0)" by (cases p)
  note b = column_bands [OF sq v [unfolded p]]
  from v p have c0: "c0 < gw" by (simp add: valid_possibility_def)
  have e: "r * gw + c < gw * gw" using enc_less [OF r] .
  have "r * gw + c = r0 * gw + c0 \<longleftrightarrow> r = r0 \<and> c = c0"
    using enc_inj [OF r(2) c0] by blast
  with e show ?thesis
    unfolding p constraint_columns_normal [OF v [unfolded p]] cell_of_def
    by auto
qed

lemma row_digit_column_iff:
  assumes sq: "bw * bw = gw" and v: "valid_possibility gw p" and r: "r < gw"
    and d: "1 \<le> d" "d \<le> int gw"
  shows "gw * gw + r * gw + nat d - 1 \<in> set (constraint_columns gw bw p)
           \<longleftrightarrow> fst p = r \<and> digit_of p = d"
proof -
  obtain r0 c0 d0 where p: "p = (r0, c0, d0)" by (cases p)
  note b = column_bands [OF sq v [unfolded p]]
  from v p have d0: "1 \<le> d0" by (simp add: valid_possibility_def)
  from d have k: "nat d - 1 < gw" and n: "gw * gw + r * gw + nat d - 1 = gw * gw + (r * gw + (nat d - 1))"
    by auto
  have e: "r * gw + (nat d - 1) < gw * gw" using enc_less [OF r k] .
  have "r * gw + (nat d - 1) = r0 * gw + (nat d0 - 1) \<longleftrightarrow> r = r0 \<and> d = d0"
    using enc_inj [OF k b(5)] digit_pred [OF d(1) d0] by blast
  with e b show ?thesis
    unfolding p constraint_columns_normal [OF v [unfolded p]] digit_of_def n
    by auto
qed

lemma col_digit_column_iff:
  assumes sq: "bw * bw = gw" and v: "valid_possibility gw p" and c: "c < gw"
    and d: "1 \<le> d" "d \<le> int gw"
  shows "2 * gw * gw + c * gw + nat d - 1 \<in> set (constraint_columns gw bw p)
           \<longleftrightarrow> fst (snd p) = c \<and> digit_of p = d"
proof -
  obtain r0 c0 d0 where p: "p = (r0, c0, d0)" by (cases p)
  note b = column_bands [OF sq v [unfolded p]]
  from v p have d0: "1 \<le> d0" by (simp add: valid_possibility_def)
  from d have k: "nat d - 1 < gw"
    and n: "2 * gw * gw + c * gw + nat d - 1 = 2 * (gw * gw) + (c * gw + (nat d - 1))"
    by auto
  have e: "c * gw + (nat d - 1) < gw * gw" using enc_less [OF c k] .
  have "c * gw + (nat d - 1) = c0 * gw + (nat d0 - 1) \<longleftrightarrow> c = c0 \<and> d = d0"
    using enc_inj [OF k b(5)] digit_pred [OF d(1) d0] by blast
  with e b show ?thesis
    unfolding p constraint_columns_normal [OF v [unfolded p]] digit_of_def n
    by auto
qed

lemma block_digit_column_iff:
  assumes sq: "bw * bw = gw" and v: "valid_possibility gw p" and bl: "b < gw"
    and d: "1 \<le> d" "d \<le> int gw"
  shows "3 * gw * gw + b * gw + nat d - 1 \<in> set (constraint_columns gw bw p)
           \<longleftrightarrow> block_index gw bw (fst p) (fst (snd p)) = b \<and> digit_of p = d"
proof -
  obtain r0 c0 d0 where p: "p = (r0, c0, d0)" by (cases p)
  note b = column_bands [OF sq v [unfolded p]]
  from v p have d0: "1 \<le> d0" by (simp add: valid_possibility_def)
  from d have k: "nat d - 1 < gw"
    and n: "3 * gw * gw + b * gw + nat d - 1 = 3 * (gw * gw) + (b * gw + (nat d - 1))"
    by auto
  have e: "b * gw + (nat d - 1) < gw * gw" using enc_less [OF bl k] .
  have "b * gw + (nat d - 1) = block_index gw bw r0 c0 * gw + (nat d0 - 1)
          \<longleftrightarrow> b = block_index gw bw r0 c0 \<and> d = d0"
    using enc_inj [OF k b(5)] digit_pred [OF d(1) d0] by blast
  with e b show ?thesis
    unfolding p constraint_columns_normal [OF v [unfolded p]] digit_of_def n
    by auto
qed

lemma expected_possibilities_valid:
  assumes pz: "puzzle sudoku gw bw" and p: "p \<in> set (expected_possibilities sudoku gw)"
  shows "valid_possibility gw p"
proof -
  from p obtain row col where "row < gw" "col < gw"
    "p \<in> set (cell_possibilities sudoku gw row col)"
    by (auto simp: expected_possibilities_def)
  then show ?thesis using cell_possibilities_valid [OF pz] by blast
qed

lemma cover_of_at:
  assumes "i < length ps" "c < C"
  shows "at (cover_of gw bw (length ps) C ps) i c
           = (if c \<in> set (constraint_columns gw bw (ps ! i)) then 1 else 0)"
  using assms by (simp add: at_def cover_of_def row_vec_nth)

lemma cover_of_shape:
  "shape0 (cover_of gw bw (length ps) C ps) = length ps"
  "shape1 (cover_of gw bw (length ps) C ps) = C"
  by (simp_all add: shape0_def cover_of_def)

lemma length_filter_map: "length (filter Q (map f xs)) = length (filter (\<lambda>x. Q (f x)) xs)"
  by (induction xs) simp_all

lemma hits_selected:
  assumes rng: "\<forall>i \<in> set sol. i < length ps" and c: "c < C"
  shows "hits (cover_of gw bw (length ps) C ps) sol c
           = length (filter (\<lambda>p. c \<in> set (constraint_columns gw bw p)) (map (\<lambda>i. ps ! i) sol))"
proof -
  have "filter (\<lambda>r. at (cover_of gw bw (length ps) C ps) r c \<noteq> 0) sol
          = filter (\<lambda>i. c \<in> set (constraint_columns gw bw (ps ! i))) sol"
    using rng c by (intro filter_cong refl) (simp add: cover_of_at)
  then show ?thesis unfolding hits_def length_filter_map by simp
qed

definition square :: "nat \<Rightarrow> grid \<Rightarrow> bool" where
  "square n g = (length g = n \<and> (\<forall>r \<in> set g. length r = n))"

lemma square_set_cell:
  assumes "square n g" "row < n" "col < n"
  shows "set_cell g row col v = Inr (g[row := (g ! row)[col := v]])"
    and "square n (g[row := (g ! row)[col := v]])"
    and "\<And>r c. r < n \<Longrightarrow> c < n \<Longrightarrow>
            g[row := (g ! row)[col := v]] ! r ! c = (if (r, c) = (row, col) then v else g ! r ! c)"
proof -
  from assms have l: "length g = n" "length (g ! row) = n" by (simp_all add: square_def)
  then show "set_cell g row col v = Inr (g[row := (g ! row)[col := v]])"
    using assms(2,3) by (simp add: set_cell_def)
  show "square n (g[row := (g ! row)[col := v]])"
    using assms(1) l unfolding square_def
    by (auto dest!: set_update_subset_insert [THEN subsetD])
  fix r c assume "r < n" "c < n"
  then show "g[row := (g ! row)[col := v]] ! r ! c = (if (r, c) = (row, col) then v else g ! r ! c)"
    using l assms(2,3) by (cases "r = row") (auto simp: nth_list_update)
qed

lemma square_zeros_like: "square n g \<Longrightarrow> square n (zeros_like g)"
  by (auto simp: square_def zeros_like_def)

lemma zeros_like_nth:
  "square n g \<Longrightarrow> r < n \<Longrightarrow> c < n \<Longrightarrow> zeros_like g ! r ! c = 0"
  by (simp add: square_def zeros_like_def)

text \<open>
  The grid after the writes of \<open>build_final_sudoku\<close>: a cell holds the digit of the last
  selected possibility for it, and its first value when there is none.
\<close>

lemma write_selected:
  assumes sq: "square n g"
    and rng: "\<forall>i \<in> set sol. i < length ps"
    and val: "\<forall>p \<in> set ps. valid_possibility n p"
  shows "\<exists>f. foldE (\<lambda>sol final.
                  case lookup ps sol of
                    Inl e \<Rightarrow> Inl e
                  | Inr (row, col, n) \<Rightarrow> set_cell final row col n) sol g = Inr f
           \<and> square n f
           \<and> (\<forall>r < n. \<forall>c < n.
                f ! r ! c = (case filter (\<lambda>p. cell_of p = (r, c)) (map (\<lambda>i. ps ! i) sol) of
                               [] \<Rightarrow> g ! r ! c
                             | q # qs \<Rightarrow> digit_of (last (q # qs))))"
  using sq rng
proof (induction sol arbitrary: g)
  case Nil
  then show ?case by simp
next
  case (Cons i sol)
  obtain row col d where p: "ps ! i = (row, col, d)" by (cases "ps ! i")
  from Cons.prems(2) have i: "i < length ps" by simp
  then have "valid_possibility n (ps ! i)" using val by simp
  with p have rc: "row < n" "col < n" by (simp_all add: valid_possibility_def)
  let ?g1 = "g[row := (g ! row)[col := d]]"
  note sc = square_set_cell [OF Cons.prems(1) rc, where v = d]
  from Cons.prems(2) have rng': "\<forall>i \<in> set sol. i < length ps" by simp
  from Cons.IH [OF sc(2) rng'] obtain f where
    f: "foldE (\<lambda>sol final.
                  case lookup ps sol of
                    Inl e \<Rightarrow> Inl e
                  | Inr (row, col, n) \<Rightarrow> set_cell final row col n) sol ?g1 = Inr f"
    and sqf: "square n f"
    and cells: "\<And>r c. r < n \<Longrightarrow> c < n \<Longrightarrow>
        f ! r ! c = (case filter (\<lambda>p. cell_of p = (r, c)) (map (\<lambda>i. ps ! i) sol) of
                       [] \<Rightarrow> ?g1 ! r ! c
                     | q # qs \<Rightarrow> digit_of (last (q # qs)))"
    by blast
  have step: "foldE (\<lambda>sol final.
                  case lookup ps sol of
                    Inl e \<Rightarrow> Inl e
                  | Inr (row, col, n) \<Rightarrow> set_cell final row col n) (i # sol) g = Inr f"
    using i p sc(1) f by (simp add: lookup_def)
  have "f ! r ! c = (case filter (\<lambda>p. cell_of p = (r, c)) (map (\<lambda>i. ps ! i) (i # sol)) of
                       [] \<Rightarrow> g ! r ! c
                     | q # qs \<Rightarrow> digit_of (last (q # qs)))"
    if r: "r < n" "c < n" for r c
  proof (cases "cell_of (ps ! i) = (r, c)")
    case True
    then have e: "(r, c) = (row, col)" by (simp add: p cell_of_def)
    show ?thesis
    proof (cases "filter (\<lambda>p. cell_of p = (r, c)) (map (\<lambda>i. ps ! i) sol)")
      case Nil
      with True cells [OF r] sc(3) [OF r] e show ?thesis
        by (simp add: p digit_of_def)
    next
      case (Cons q qs)
      with True cells [OF r] show ?thesis by simp
    qed
  next
    case False
    then have e: "(r, c) \<noteq> (row, col)" by (auto simp: p cell_of_def)
    with False cells [OF r] sc(3) [OF r] show ?thesis
      by (auto split: list.splits)
  qed
  with step sqf show ?case by blast
qed

lemma puzzle_square: "puzzle sudoku gw bw \<Longrightarrow> square gw sudoku"
  by (simp add: puzzle_def square_def)

lemma cell_possibilities_cell:
  "p \<in> set (cell_possibilities sudoku gw r c) \<Longrightarrow> cell_of p = (r, c)"
  by (auto simp: cell_possibilities_def cell_of_def split: if_splits)

lemma expected_possibilities_cell:
  assumes "p \<in> set (expected_possibilities sudoku gw)" "cell_of p = (r, c)"
  shows "p \<in> set (cell_possibilities sudoku gw r c)"
proof -
  from assms(1) obtain r' c' where "p \<in> set (cell_possibilities sudoku gw r' c')"
    by (auto simp: expected_possibilities_def)
  moreover from this have "cell_of p = (r', c')" by (rule cell_possibilities_cell)
  ultimately show ?thesis using assms(2) by simp
qed

text \<open>
  What an exact cover of the cover matrix of a puzzle selects: one possibility for every
  constraint column.
\<close>

definition exact_cover :: "matrix \<Rightarrow> nat list \<Rightarrow> bool" where
  "exact_cover cover solution =
     ((\<forall>r \<in> set solution. r < shape0 cover)
      \<and> (\<forall>c < shape1 cover. length (filter (\<lambda>r. at cover r c = 1) solution) = 1))"

lemma selected_once:
  assumes rng: "\<forall>i \<in> set sol. i < length ps"
    and ec: "\<forall>c < C. hits (cover_of gw bw (length ps) C ps) sol c = 1"
    and val: "\<forall>p \<in> set ps. valid_possibility gw p"
    and c: "c < C"
    and iff: "\<And>p. valid_possibility gw p \<Longrightarrow> c \<in> set (constraint_columns gw bw p) \<longleftrightarrow> Q p"
  shows "length (filter Q (map (\<lambda>i. ps ! i) sol)) = 1"
proof -
  have "filter Q (map (\<lambda>i. ps ! i) sol)
          = filter (\<lambda>p. c \<in> set (constraint_columns gw bw p)) (map (\<lambda>i. ps ! i) sol)"
  proof (rule filter_cong [OF refl])
    fix p assume "p \<in> set (map (\<lambda>i. ps ! i) sol)"
    then have "p \<in> set ps" using rng by auto
    then have "valid_possibility gw p" using val by blast
    then show "Q p = (c \<in> set (constraint_columns gw bw p))" using iff by simp
  qed
  then show ?thesis using ec c hits_selected [OF rng c, of gw bw] by simp
qed

lemma unit_once:
  assumes sq: "bw * bw = gw"
    and rng: "\<forall>i \<in> set sol. i < length ps"
    and ec: "\<forall>c < 4 * gw * gw. hits (cover_of gw bw (length ps) (4 * gw * gw) ps) sol c = 1"
    and val: "\<forall>p \<in> set ps. valid_possibility gw p"
    and cells: "\<And>r c. r < gw \<Longrightarrow> c < gw \<Longrightarrow>
        f ! r ! c = (case filter (\<lambda>p. cell_of p = (r, c)) (map (\<lambda>i. ps ! i) sol) of
                       [] \<Rightarrow> 0 | q # qs \<Rightarrow> digit_of (last (q # qs)))"
    and u: "distinct u" "\<forall>(r, c) \<in> set u. r < gw \<and> c < gw"
    and col: "col < 4 * gw * gw"
    and iff: "\<And>p. valid_possibility gw p \<Longrightarrow>
        col \<in> set (constraint_columns gw bw p) \<longleftrightarrow> cell_of p \<in> set u \<and> digit_of p = d"
  shows "count_list (map (\<lambda>(r, c). f ! r ! c) u) d = 1"
proof (rule unit_digit_once [where cell = cell_of and digit = digit_of
      and S = "map (\<lambda>i. ps ! i) sol", OF u(1)])
  fix k assume k: "k \<in> set u"
  obtain r c where rc: "k = (r, c)" by (cases k)
  with k u(2) have lt: "r < gw" "c < gw" by auto
  have e: "r * gw + c < 4 * gw * gw" using enc_less [OF lt] by simp
  have "length (filter (\<lambda>p. cell_of p = (r, c)) (map (\<lambda>i. ps ! i) sol)) = 1"
    using selected_once [OF rng ec val e] cell_column_iff [OF sq _ lt] by simp
  then obtain p where p: "filter (\<lambda>p. cell_of p = (r, c)) (map (\<lambda>i. ps ! i) sol) = [p]"
    using length_filter_1 by blast
  with cells [OF lt] have "f ! r ! c = digit_of p" by simp
  with p rc show "\<exists>p. filter (\<lambda>p. cell_of p = k) (map (\<lambda>i. ps ! i) sol) = [p]
                    \<and> (case k of (r, c) \<Rightarrow> f ! r ! c) = digit_of p"
    by simp
next
  show "length (filter (\<lambda>p. cell_of p \<in> set u \<and> digit_of p = d) (map (\<lambda>i. ps ! i) sol)) = 1"
    using selected_once [OF rng ec val col] iff by simp
qed

lemma digit_range: "d \<in> set (map int [1..<gw + 1]) \<longleftrightarrow> 1 \<le> d \<and> d \<le> int gw"
proof -
  have s: "set (map int [1..<gw + 1]) = int ` {1..<gw + 1}" by (simp del: upt_Suc)
  show ?thesis unfolding s
  proof
    assume "d \<in> int ` {1..<gw + 1}"
    then show "1 \<le> d \<and> d \<le> int gw" by auto
  next
    assume a: "1 \<le> d \<and> d \<le> int gw"
    then have "d = int (nat d)" "nat d \<in> {1..<gw + 1}" by auto
    then show "d \<in> int ` {1..<gw + 1}" by (rule image_eqI)
  qed
qed

lemma band_less:
  fixes gw :: nat
  assumes "x < gw" "1 \<le> d" "d \<le> int gw"
  shows "gw * gw + x * gw + nat d - 1 < 4 * gw * gw"
    "2 * gw * gw + x * gw + nat d - 1 < 4 * gw * gw"
    "3 * gw * gw + x * gw + nat d - 1 < 4 * gw * gw"
proof -
  from assms have k: "nat d - 1 < gw" "1 \<le> nat d" by auto
  have "x * gw + (nat d - 1) < gw * gw" using enc_less [OF assms(1) k(1)] .
  with k(2) show "gw * gw + x * gw + nat d - 1 < 4 * gw * gw"
    "2 * gw * gw + x * gw + nat d - 1 < 4 * gw * gw"
    "3 * gw * gw + x * gw + nat d - 1 < 4 * gw * gw"
    by simp_all
qed

lemma units_cases:
  assumes "u \<in> set (units gw bw)"
  obtains r where "r < gw" "u = row_cells gw r"
  | c where "c < gw" "u = col_cells gw c"
  | b where "b < gw" "u = block_cells gw bw b"
  using assms by (auto simp: units_def)

lemma exact_cover_solved:
  assumes sq: "bw * bw = gw"
    and rng: "\<forall>i \<in> set sol. i < length ps"
    and ec: "\<forall>c < 4 * gw * gw. hits (cover_of gw bw (length ps) (4 * gw * gw) ps) sol c = 1"
    and val: "\<forall>p \<in> set ps. valid_possibility gw p"
    and f: "square gw f"
    and cells: "\<And>r c. r < gw \<Longrightarrow> c < gw \<Longrightarrow>
        f ! r ! c = (case filter (\<lambda>p. cell_of p = (r, c)) (map (\<lambda>i. ps ! i) sol) of
                       [] \<Rightarrow> 0 | q # qs \<Rightarrow> digit_of (last (q # qs)))"
  shows "solved_grid f gw bw"
proof -
  have "count_list (map (\<lambda>(r, c). f ! r ! c) u) d = 1"
    if u: "u \<in> set (units gw bw)" and d: "d \<in> set (map int [1..<gw + 1])" for u d
  proof -
    from d have dr: "1 \<le> d" "d \<le> int gw" unfolding digit_range by blast+
    from u show ?thesis
    proof (cases rule: units_cases)
      case (1 r)
      have du: "distinct u" unfolding 1 row_cells_def by (simp add: distinct_map inj_on_def)
      have ru: "\<forall>(r, c) \<in> set u. r < gw \<and> c < gw" unfolding 1 row_cells_def using 1(1) by auto
      note cb = band_less(1) [OF 1(1) dr]
      have iff: "gw * gw + r * gw + nat d - 1 \<in> set (constraint_columns gw bw p)
                       \<longleftrightarrow> cell_of p \<in> set u \<and> digit_of p = d"
        if v: "valid_possibility gw p" for p
      proof -
        from v have "fst (snd p) < gw" by (cases p) (simp add: valid_possibility_def)
        then have "cell_of p \<in> set u \<longleftrightarrow> fst p = r"
          unfolding 1 row_cells_def cell_of_def by auto
        then show ?thesis using row_digit_column_iff [OF sq v 1(1) dr] by simp
      qed
      show ?thesis by (rule unit_once [OF sq rng ec val cells du ru cb iff])
    next
      case (2 c)
      have du: "distinct u" unfolding 2 col_cells_def by (simp add: distinct_map inj_on_def)
      have ru: "\<forall>(r, c) \<in> set u. r < gw \<and> c < gw" unfolding 2 col_cells_def using 2(1) by auto
      note cb = band_less(2) [OF 2(1) dr]
      have iff: "2 * gw * gw + c * gw + nat d - 1 \<in> set (constraint_columns gw bw p)
                       \<longleftrightarrow> cell_of p \<in> set u \<and> digit_of p = d"
        if v: "valid_possibility gw p" for p
      proof -
        from v have "fst p < gw" by (cases p) (simp add: valid_possibility_def)
        then have "cell_of p \<in> set u \<longleftrightarrow> fst (snd p) = c"
          unfolding 2 col_cells_def cell_of_def by auto
        then show ?thesis using col_digit_column_iff [OF sq v 2(1) dr] by simp
      qed
      show ?thesis by (rule unit_once [OF sq rng ec val cells du ru cb iff])
    next
      case (3 b)
      have du: "distinct u" unfolding 3 block_cells_def
        by (intro distinct_filter distinct_product) simp_all
      have ru: "\<forall>(r, c) \<in> set u. r < gw \<and> c < gw" unfolding 3 block_cells_def by auto
      note cb = band_less(3) [OF 3(1) dr]
      have iff: "3 * gw * gw + b * gw + nat d - 1 \<in> set (constraint_columns gw bw p)
                       \<longleftrightarrow> cell_of p \<in> set u \<and> digit_of p = d"
        if v: "valid_possibility gw p" for p
      proof -
        from v have "fst p < gw" "fst (snd p) < gw"
          by (cases p; simp add: valid_possibility_def)+
        then have "cell_of p \<in> set u \<longleftrightarrow> block_index gw bw (fst p) (fst (snd p)) = b"
          unfolding 3 block_cells_def cell_of_def by auto
        then show ?thesis using block_digit_column_iff [OF sq v 3(1) dr] by simp
      qed
      show ?thesis by (rule unit_once [OF sq rng ec val cells du ru cb iff])
    qed
  qed
  with f show ?thesis unfolding solved_grid_def square_def by blast
qed

lemma build_final_cells:
  assumes pz: "puzzle sudoku gw bw"
    and rng: "\<forall>i \<in> set sol. i < length (expected_possibilities sudoku gw)"
  shows "\<exists>f. build_final_sudoku (expected_possibilities sudoku gw) sol sudoku = Inr f
           \<and> square gw f
           \<and> (\<forall>r < gw. \<forall>c < gw.
                f ! r ! c = (case filter (\<lambda>p. cell_of p = (r, c))
                                    (map (\<lambda>i. expected_possibilities sudoku gw ! i) sol) of
                               [] \<Rightarrow> 0
                             | q # qs \<Rightarrow> digit_of (last (q # qs))))"
proof -
  let ?E = "expected_possibilities sudoku gw"
  have z: "square gw (zeros_like sudoku)"
    using square_zeros_like [OF puzzle_square [OF pz]] .
  have val: "\<forall>p \<in> set ?E. valid_possibility gw p"
    using expected_possibilities_valid [OF pz] by blast
  from write_selected [OF z rng val] obtain f where
    f: "foldE (\<lambda>sol final.
                  case lookup ?E sol of
                    Inl e \<Rightarrow> Inl e
                  | Inr (row, col, n) \<Rightarrow> set_cell final row col n) sol (zeros_like sudoku) = Inr f"
    and sqf: "square gw f"
    and cells: "\<forall>r < gw. \<forall>c < gw.
        f ! r ! c = (case filter (\<lambda>p. cell_of p = (r, c)) (map (\<lambda>i. ?E ! i) sol) of
                       [] \<Rightarrow> zeros_like sudoku ! r ! c
                     | q # qs \<Rightarrow> digit_of (last (q # qs)))"
    by blast
  have "f ! r ! c = (case filter (\<lambda>p. cell_of p = (r, c)) (map (\<lambda>i. ?E ! i) sol) of
                       [] \<Rightarrow> 0 | q # qs \<Rightarrow> digit_of (last (q # qs)))"
    if "r < gw" "c < gw" for r c
    using cells that zeros_like_nth [OF puzzle_square [OF pz] that]
    by (auto split: list.splits)
  with f sqf show ?thesis unfolding build_final_sudoku_def by blast
qed

lemma hits_binary:
  assumes "\<forall>i \<in> set sol. i < length ps" "c < C"
  shows "length (filter (\<lambda>r. at (cover_of gw bw (length ps) C ps) r c = 1) sol)
           = hits (cover_of gw bw (length ps) C ps) sol c"
proof -
  have "filter (\<lambda>r. at (cover_of gw bw (length ps) C ps) r c = 1) sol
          = filter (\<lambda>r. at (cover_of gw bw (length ps) C ps) r c \<noteq> 0) sol"
    using assms by (intro filter_cong refl) (simp add: cover_of_at)
  then show ?thesis by (simp add: hits_def)
qed

text \<open>
  Claim C1. When \<open>solve_sudoku\<close> returns a completed grid for a puzzle, the selected
  rows of the cover matrix form an exact cover: each of the \<open>4 * grid_width\<^sup>2\<close>
  constraint columns has exactly one selected row with a 1 in it. The completed grid is
  built from these rows, and it holds each digit \<open>1..grid_width\<close> exactly once in
  every row, every column and every block.
\<close>

theorem solved_grid_from_exact_cover:
  assumes pz: "puzzle sudoku grid_width block_width"
    and res: "solve_sudoku sudoku grid_width block_width = Inr (Some completed, path)"
  shows "\<exists>cover possibilities solution solution_path.
           create_cover sudoku grid_width block_width = Inr (cover, possibilities)
         \<and> solve cover [0..<shape0 cover] [0..<shape1 cover] [] []
               = Inr (True, solution, solution_path)
         \<and> shape1 cover = 4 * grid_width * grid_width
         \<and> exact_cover cover solution
         \<and> build_final_sudoku possibilities solution sudoku = Inr completed
         \<and> solved_grid completed grid_width block_width"
proof -
  let ?E = "expected_possibilities sudoku grid_width"
  let ?C = "4 * grid_width * grid_width"
  let ?M = "cover_of grid_width block_width (length ?E) ?C ?E"
  from pz have sq: "block_width * block_width = grid_width" by (simp add: puzzle_def)
  note cc = create_cover_eq [OF pz]
  note sh = cover_of_shape [of grid_width block_width ?E ?C]
  from solve_inv [OF search_inv_initial, of ?M "[]"] obtain b sol sp where
    s: "solve ?M [0..<shape0 ?M] [0..<shape1 ?M] [] [] = Inr (b, sol, sp)"
    and post: "b \<longrightarrow> (\<forall>c < shape1 ?M. hits ?M sol c = 1) \<and> (\<forall>r \<in> set sol. r < shape0 ?M)"
    by blast
  from res have b: b
    unfolding solve_sudoku_def cc using s by (auto split: if_splits)
  with post have ec: "\<forall>c < ?C. hits ?M sol c = 1" and rng: "\<forall>i \<in> set sol. i < length ?E"
    unfolding sh by blast+
  from build_final_cells [OF pz rng] obtain f where
    f: "build_final_sudoku ?E sol sudoku = Inr f" and sqf: "square grid_width f"
    and cells: "\<And>r c. r < grid_width \<Longrightarrow> c < grid_width \<Longrightarrow>
        f ! r ! c = (case filter (\<lambda>p. cell_of p = (r, c)) (map (\<lambda>i. ?E ! i) sol) of
                       [] \<Rightarrow> 0 | q # qs \<Rightarrow> digit_of (last (q # qs)))"
    by blast
  from res have "completed = f"
    unfolding solve_sudoku_def cc using s b f by (auto split: sum.splits)
  have val: "\<forall>p \<in> set ?E. valid_possibility grid_width p"
    using expected_possibilities_valid [OF pz] by blast
  have solved: "solved_grid f grid_width block_width"
    using exact_cover_solved [OF sq rng ec val sqf cells] .
  have ex: "exact_cover ?M sol"
    unfolding exact_cover_def sh using rng ec hits_binary [OF rng] by simp
  show ?thesis
  proof (intro exI conjI)
    show "create_cover sudoku grid_width block_width = Inr (?M, ?E)" by (rule cc)
    show "solve ?M [0..<shape0 ?M] [0..<shape1 ?M] [] [] = Inr (True, sol, sp)"
      using s b by simp
    show "shape1 ?M = ?C" by (rule sh(2))
    show "exact_cover ?M sol" by (rule ex)
    show "build_final_sudoku ?E sol sudoku = Inr completed"
      using f \<open>completed = f\<close> by simp
    show "solved_grid completed grid_width block_width"
      using solved \<open>completed = f\<close> by simp
  qed
qed

text \<open>
  The shape of the event log of a search. From a stack \<open>st\<close>, the log is empty, or it
  selects a row and goes on above it, or it selects a row, comes back to the same stack
  after a failed attempt, deselects the row and goes on. \<open>ok st r\<close> is what is known
  of a row when it is selected above the stack \<open>st\<close>.
\<close>

inductive search_trace ::
  "(nat list \<Rightarrow> nat \<Rightarrow> bool) \<Rightarrow> nat list \<Rightarrow> (int \<times> nat) list \<Rightarrow> nat list \<Rightarrow> bool"
  for ok :: "nat list \<Rightarrow> nat \<Rightarrow> bool" where
  trace_done: "search_trace ok st [] st"
| trace_select:
    "ok st r \<Longrightarrow> search_trace ok (st @ [r]) ext st' \<Longrightarrow> search_trace ok st ((1, r) # ext) st'"
| trace_backtrack:
    "ok st r \<Longrightarrow> search_trace ok (st @ [r]) ext (st @ [r]) \<Longrightarrow> search_trace ok st ext' st'
       \<Longrightarrow> search_trace ok st ((1, r) # ext @ (0, r) # ext') st'"

definition compatible :: "matrix \<Rightarrow> nat list \<Rightarrow> nat \<Rightarrow> bool" where
  "compatible cover st r =
     (r < shape0 cover \<and> (\<forall>i \<in> set st. \<forall>c < shape1 cover. at cover i c = 0 \<or> at cover r c = 0))"

lemma search_inv_compatible:
  assumes inv: "search_inv M ar ac sol" and row: "row \<in> set ar"
  shows "compatible M sol row"
proof -
  from inv have rng: "\<forall>r \<in> set ar. r < shape0 M"
    and h: "\<And>c. c < shape1 M \<Longrightarrow> hits M sol c = (if c \<in> set ac then 0 else 1)"
    and a: "\<And>r c. r \<in> set ar \<Longrightarrow> c < shape1 M \<Longrightarrow> at M r c \<noteq> 0 \<Longrightarrow> c \<in> set ac"
    unfolding search_inv_def by blast+
  have "at M i c = 0 \<or> at M row c = 0" if i: "i \<in> set sol" and c: "c < shape1 M" for i c
  proof (rule ccontr)
    assume "\<not> (at M i c = 0 \<or> at M row c = 0)"
    then have nz: "at M i c \<noteq> 0" "at M row c \<noteq> 0" by simp_all
    then have "c \<in> set ac" using a [OF row c] by simp
    then have "hits M sol c = 0" using h [OF c] by simp
    then have "filter (\<lambda>r. at M r c \<noteq> 0) sol = []" by (simp add: hits_def)
    with i nz(1) show False by (simp add: filter_empty_conv)
  qed
  with rng row show ?thesis unfolding compatible_def by blast
qed

lemma solve_trace:
  "search_inv M ar ac sol \<Longrightarrow> solve M ar ac sol path = Inr (b, sol', path') \<Longrightarrow>
     \<exists>ext. path' = path @ ext \<and> search_trace (compatible M) sol ext sol'"
  and solve_loop_trace:
  "search_inv M ar ac sol \<Longrightarrow> ac \<noteq> [] \<Longrightarrow> set cands \<subseteq> set ar \<Longrightarrow>
   solve_loop M cands ar ac sol path = Inr (b, sol', path') \<Longrightarrow>
     \<exists>ext. path' = path @ ext \<and> search_trace (compatible M) sol ext sol'"
proof (induction M ar ac sol path and M cands ar ac sol path
    arbitrary: b sol' path' and b sol' path' rule: solve_solve_loop.induct)
  case (1 cover active_rows active_cols solution solution_path)
  note inv = "1.prems"(1) and res = "1.prems"(2)
  show ?case
  proof (cases "active_cols = []")
    case True
    with res have "sol' = solution" "path' = solution_path" by (simp_all add: solve.simps)
    then show ?thesis using trace_done by simp
  next
    case False
    from res False obtain col count where
      m: "min_col cover active_rows active_cols = Inr (col, count)"
      by (auto simp: solve.simps split: sum.splits)
    show ?thesis
    proof (cases "count = 0")
      case True
      with res False m have "sol' = solution" "path' = solution_path"
        by (simp_all add: solve.simps)
      then show ?thesis using trace_done by simp
    next
      case nz: False
      from res False m nz obtain cands where
        c: "candidate_rows cover active_rows col = Inr cands"
        and l: "solve_loop cover cands active_rows active_cols solution solution_path
                  = Inr (b, sol', path')"
        by (auto simp: solve.simps split: sum.splits)
      from c have sub: "set cands \<subseteq> set active_rows"
        by (auto simp: candidate_rows_def split: if_splits)
      show ?thesis using "1.IH" [OF _ m refl nz c inv False sub l] False by simp
    qed
  qed
next
  case (2 cover active_rows active_cols solution solution_path)
  then show ?case using trace_done by simp
next
  case (3 cover row rest active_rows active_cols solution solution_path)
  note inv = "3.prems"(1) and ne = "3.prems"(2) and sub = "3.prems"(3) and res = "3.prems"(4)
  from sub have row: "row \<in> set active_rows" by simp
  have ok: "compatible cover solution row" using search_inv_compatible [OF inv row] .
  obtain rtr ctr ar1 ac1 where
    d: "descend row cover active_rows active_cols = Inr (rtr, ctr, ar1, ac1)"
    using descend_ok [OF inv row ne] by blast
  have inv1: "search_inv cover ar1 ac1 (solution @ [row])"
    using search_inv_descend [OF inv row d] .
  from res d obtain s sol2 path2 where
    r: "solve cover ar1 ac1 (solution @ [row]) (solution_path @ [(1, row)]) = Inr (s, sol2, path2)"
    by (auto split: sum.splits)
  from "3.IH"(1) [OF d refl refl refl inv1 r] obtain ext1 where
    e1: "path2 = (solution_path @ [(1, row)]) @ ext1"
    and t1: "search_trace (compatible cover) (solution @ [row]) ext1 sol2"
    by blast
  show ?case
  proof (cases s)
    case True
    with res d r have "sol' = sol2" "path' = path2" by simp_all
    with e1 t1 ok show ?thesis using trace_select by auto
  next
    case False
    with solve_extends [OF r] have sol2: "sol2 = solution @ [row]" by simp
    note s = descend_sets [OF d]
    have sets: "set (ar1 @ rtr) = set active_rows" "set (ac1 @ ctr) = set active_cols"
      using s by auto
    have inv2: "search_inv cover (ar1 @ rtr) (ac1 @ ctr) solution"
      using inv search_inv_cong [OF sets] by simp
    have "set (ac1 @ ctr) \<noteq> {}" unfolding sets(2) using ne by simp
    then have ne2: "ac1 @ ctr \<noteq> []" by (simp del: set_append)
    have sub2: "set rest \<subseteq> set (ar1 @ rtr)" unfolding sets(1) using sub by simp
    have ds: "(ar1 @ rtr, ac1 @ ctr) = deselect rtr ctr ar1 ac1" by (simp add: deselect_def)
    have bl: "butlast sol2 = solution" by (simp add: sol2)
    have l: "solve_loop cover rest (ar1 @ rtr) (ac1 @ ctr) (butlast sol2) (path2 @ [(0, row)])
               = Inr (b, sol', path')"
      using res d r False by (simp add: deselect_def)
    from "3.IH"(2) [OF d refl refl refl r refl refl False ds inv2 [folded bl] ne2 sub2 l]
    obtain ext2 where e2: "path' = (path2 @ [(0, row)]) @ ext2"
      and t2: "search_trace (compatible cover) solution ext2 sol'"
      unfolding bl by blast
    have "search_trace (compatible cover) solution ((1, row) # ext1 @ (0, row) # ext2) sol'"
      using ok t1 [unfolded sol2] t2 by (rule trace_backtrack)
    moreover have "path' = solution_path @ (1, row) # ext1 @ (0, row) # ext2"
      using e1 e2 by simp
    ultimately show ?thesis by blast
  qed
qed

definition event :: "possibility list \<Rightarrow> int \<times> nat \<Rightarrow> step" where
  "event ps e =
     (if fst e = 1 then ''ins'' else ''rem'',
      fst (ps ! snd e), fst (snd (ps ! snd e)), snd (snd (ps ! snd e)))"

lemma build_solving_path_map:
  assumes "\<forall>e \<in> set sp. snd e < length ps"
  shows "build_solving_path ps sp = Inr (map (event ps) sp)"
proof -
  define f where "f = (\<lambda>(action, cover_row) sudoku_solution_path.
              case lookup ps cover_row of
                Inl e \<Rightarrow> Inl e
              | Inr (row, col, n) \<Rightarrow>
                  if action = (1::int) then Inr (sudoku_solution_path @ [(''ins'', row, col, n)])
                  else Inr (sudoku_solution_path @ [(''rem'', row, col, n)]))"
  have step: "f (a, i) acc = Inr (acc @ [event ps (a, i)])" if "i < length ps" for a i acc
    using that by (cases "ps ! i") (simp add: f_def lookup_def event_def)
  have "foldE f sp acc = Inr (acc @ map (event ps) sp)" for acc
    using assms
  proof (induction sp arbitrary: acc)
    case Nil
    then show ?case by simp
  next
    case (Cons e sp)
    obtain a i where e: "e = (a, i)" by (cases e)
    from Cons.prems e have i: "i < length ps" by simp
    from Cons.prems have "\<forall>e \<in> set sp. snd e < length ps" by simp
    note IH = Cons.IH [OF this]
    show ?case unfolding e by (simp add: step [OF i] IH)
  qed
  then show ?thesis by (simp add: build_solving_path_def f_def)
qed

lemma search_trace_events:
  assumes "search_trace ok st ext st'" "\<And>st r. ok st r \<Longrightarrow> Q r"
  shows "\<forall>e \<in> set ext. Q (snd e)"
  using assms(1)
proof (induction rule: search_trace.induct)
  case (trace_done st)
  then show ?case by simp
next
  case (trace_select st r ext st')
  then show ?case using assms(2) by auto
next
  case (trace_backtrack st r ext ext' st')
  then show ?case using assms(2) by auto
qed

text \<open>What \<open>solve_sudoku\<close> computes for a puzzle, with the intermediate results named.\<close>

lemma solve_sudoku_cases [case_names failure success]:
  assumes pz: "puzzle sudoku gw bw"
  obtains (failure) sol sp where
      "solve (cover_of gw bw (length (expected_possibilities sudoku gw)) (4 * gw * gw)
               (expected_possibilities sudoku gw))
        [0..<length (expected_possibilities sudoku gw)] [0..<4 * gw * gw] [] []
        = Inr (False, sol, sp)"
      "solve_sudoku sudoku gw bw = Inr (None, None)"
  | (success) sol sp f where
      "solve (cover_of gw bw (length (expected_possibilities sudoku gw)) (4 * gw * gw)
               (expected_possibilities sudoku gw))
        [0..<length (expected_possibilities sudoku gw)] [0..<4 * gw * gw] [] []
        = Inr (True, sol, sp)"
      "search_trace
          (compatible (cover_of gw bw (length (expected_possibilities sudoku gw)) (4 * gw * gw)
               (expected_possibilities sudoku gw))) [] sp sol"
      "\<forall>i \<in> set sol. i < length (expected_possibilities sudoku gw)"
      "\<forall>c < 4 * gw * gw.
             hits (cover_of gw bw (length (expected_possibilities sudoku gw)) (4 * gw * gw)
               (expected_possibilities sudoku gw)) sol c = 1"
      "build_final_sudoku (expected_possibilities sudoku gw) sol sudoku = Inr f"
      "square gw f"
      "\<And>r c. r < gw \<Longrightarrow> c < gw \<Longrightarrow>
          f ! r ! c = (case filter (\<lambda>p. cell_of p = (r, c))
                              (map (\<lambda>i. expected_possibilities sudoku gw ! i) sol) of
                         [] \<Rightarrow> 0
                       | q # qs \<Rightarrow> digit_of (last (q # qs)))"
      "solve_sudoku sudoku gw bw
         = Inr (Some f, Some (map (event (expected_possibilities sudoku gw)) sp))"
proof -
  let ?E = "expected_possibilities sudoku gw"
  let ?C = "4 * gw * gw"
  let ?M = "cover_of gw bw (length ?E) ?C ?E"
  note cc = create_cover_eq [OF pz]
  note sh = cover_of_shape [of gw bw ?E ?C]
  from solve_inv [OF search_inv_initial, of ?M "[]"] obtain b sol sp where
    s: "solve ?M [0..<shape0 ?M] [0..<shape1 ?M] [] [] = Inr (b, sol, sp)"
    and post: "b \<longrightarrow> (\<forall>c < shape1 ?M. hits ?M sol c = 1) \<and> (\<forall>r \<in> set sol. r < shape0 ?M)"
    by blast
  from solve_trace [OF search_inv_initial s]
  have tr: "search_trace (compatible ?M) [] sp sol" by simp
  have "\<forall>e \<in> set sp. snd e < shape0 ?M"
    using search_trace_events [OF tr, of "\<lambda>r. r < shape0 ?M"] by (simp add: compatible_def)
  then have sp: "build_solving_path ?E sp = Inr (map (event ?E) sp)"
    unfolding sh by (rule build_solving_path_map)
  show thesis
  proof (cases b)
    case False
    have "solve_sudoku sudoku gw bw = Inr (None, None)"
      unfolding solve_sudoku_def cc using s False by simp
    moreover have "solve ?M [0..<length ?E] [0..<?C] [] [] = Inr (False, sol, sp)"
      using s False unfolding sh by simp
    ultimately show thesis using failure by blast
  next
    case True
    with post have ec: "\<forall>c < ?C. hits ?M sol c = 1" and rng: "\<forall>i \<in> set sol. i < length ?E"
      unfolding sh by blast+
    from build_final_cells [OF pz rng] obtain f where
      f: "build_final_sudoku ?E sol sudoku = Inr f" and sqf: "square gw f"
      and cells: "\<And>r c. r < gw \<Longrightarrow> c < gw \<Longrightarrow>
        f ! r ! c = (case filter (\<lambda>p. cell_of p = (r, c)) (map (\<lambda>i. ?E ! i) sol) of
                       [] \<Rightarrow> 0 | q # qs \<Rightarrow> digit_of (last (q # qs)))"
      by blast
    have r: "solve_sudoku sudoku gw bw = Inr (Some f, Some (map (event ?E) sp))"
      unfolding solve_sudoku_def cc using s True f sp by simp
    have s': "solve ?M [0..<length ?E] [0..<?C] [] [] = Inr (True, sol, sp)"
      using s True unfolding sh by simp
    show thesis using s' tr rng ec f sqf cells r by (rule success)
  qed
qed

definition completes :: "grid \<Rightarrow> grid \<Rightarrow> nat \<Rightarrow> bool" where
  "completes f sudoku grid_width =
     (\<forall>r < grid_width. \<forall>c < grid_width. sudoku ! r ! c \<noteq> 0 \<longrightarrow> f ! r ! c = sudoku ! r ! c)"

definition solvable :: "grid \<Rightarrow> nat \<Rightarrow> nat \<Rightarrow> bool" where
  "solvable sudoku grid_width block_width =
     (\<exists>f. solved_grid f grid_width block_width \<and> completes f sudoku grid_width)"

definition duplicate_digit :: "grid \<Rightarrow> nat \<Rightarrow> nat \<Rightarrow> bool" where
  "duplicate_digit sudoku grid_width block_width =
     (\<exists>u \<in> set (units grid_width block_width). \<exists>d \<in> set (map int [1..<grid_width + 1]).
        2 \<le> count_list (map (\<lambda>(r, c). sudoku ! r ! c) u) d)"

lemma selected_cell:
  assumes sq: "bw * bw = gw"
    and rng: "\<forall>i \<in> set sol. i < length ps"
    and ec: "\<forall>c < 4 * gw * gw. hits (cover_of gw bw (length ps) (4 * gw * gw) ps) sol c = 1"
    and val: "\<forall>p \<in> set ps. valid_possibility gw p"
    and lt: "r < gw" "c < gw"
  shows "\<exists>p. filter (\<lambda>p. cell_of p = (r, c)) (map (\<lambda>i. ps ! i) sol) = [p]"
proof -
  have e: "r * gw + c < 4 * gw * gw" using enc_less [OF lt] by simp
  have "length (filter (\<lambda>p. cell_of p = (r, c)) (map (\<lambda>i. ps ! i) sol)) = 1"
    using selected_once [OF rng ec val e] cell_column_iff [OF sq _ lt] by simp
  then show ?thesis using length_filter_1 by blast
qed

lemma units_in_range:
  assumes "u \<in> set (units gw bw)" "k \<in> set u"
  shows "fst k < gw \<and> snd k < gw"
  using assms(1)
proof (cases rule: units_cases)
  case (1 r)
  with assms(2) show ?thesis by (auto simp: row_cells_def)
next
  case (2 c)
  with assms(2) show ?thesis by (auto simp: col_cells_def)
next
  case (3 b)
  with assms(2) show ?thesis by (auto simp: block_cells_def)
qed

lemma count_list_mono:
  assumes "\<And>k. k \<in> set u \<Longrightarrow> g k = d \<Longrightarrow> f k = d"
  shows "count_list (map g u) d \<le> count_list (map f u) d"
  using assms by (induction u) auto

lemma duplicate_unsolvable:
  assumes dup: "duplicate_digit sudoku gw bw"
  shows "\<not> solvable sudoku gw bw"
proof
  assume "solvable sudoku gw bw"
  then obtain f where f: "solved_grid f gw bw" and c: "completes f sudoku gw"
    unfolding solvable_def by blast
  from dup obtain u d where u: "u \<in> set (units gw bw)" and d: "d \<in> set (map int [1..<gw + 1])"
    and two: "2 \<le> count_list (map (\<lambda>(r, c). sudoku ! r ! c) u) d"
    unfolding duplicate_digit_def by blast
  from d have d0: "d \<noteq> 0" unfolding digit_range by auto
  have "count_list (map (\<lambda>(r, c). sudoku ! r ! c) u) d \<le> count_list (map (\<lambda>(r, c). f ! r ! c) u) d"
  proof (rule count_list_mono)
    fix k assume k: "k \<in> set u" and e: "(case k of (r, c) \<Rightarrow> sudoku ! r ! c) = d"
    obtain r c where rc: "k = (r, c)" by (cases k)
    from units_in_range [OF u k] rc have "r < gw" "c < gw" by simp_all
    with c e d0 rc show "(case k of (r, c) \<Rightarrow> f ! r ! c) = d"
      unfolding completes_def by auto
  qed
  moreover from f u d have "count_list (map (\<lambda>(r, c). f ! r ! c) u) d = 1"
    unfolding solved_grid_def by blast
  ultimately show False using two by simp
qed

lemma success_solvable:
  assumes pz: "puzzle sudoku gw bw"
    and res: "solve_sudoku sudoku gw bw = Inr (Some f, p)"
  shows "solved_grid f gw bw \<and> completes f sudoku gw"
proof -
  let ?E = "expected_possibilities sudoku gw"
  let ?M = "cover_of gw bw (length ?E) (4 * gw * gw) ?E"
  from pz have sq: "bw * bw = gw" by (simp add: puzzle_def)
  have val: "\<forall>p \<in> set ?E. valid_possibility gw p"
    using expected_possibilities_valid [OF pz] by blast
  from pz res obtain sol where
    rng: "\<forall>i \<in> set sol. i < length ?E"
    and ec: "\<forall>c < 4 * gw * gw. hits ?M sol c = 1"
    and sqf: "square gw f"
    and cells: "\<And>r c. r < gw \<Longrightarrow> c < gw \<Longrightarrow>
        f ! r ! c = (case filter (\<lambda>p. cell_of p = (r, c)) (map (\<lambda>i. ?E ! i) sol) of
                       [] \<Rightarrow> 0 | q # qs \<Rightarrow> digit_of (last (q # qs)))"
  proof (cases rule: solve_sudoku_cases)
    case failure
    with res show ?thesis by simp
  next
    case (success sol sp f')
    from success(8) res have "f' = f" by simp
    with success(3,4,6,7) that show ?thesis by blast
  qed
  have "solved_grid f gw bw" using exact_cover_solved [OF sq rng ec val sqf cells] .
  moreover have "f ! r ! c = sudoku ! r ! c" if lt: "r < gw" "c < gw" and nz: "sudoku ! r ! c \<noteq> 0" for r c
  proof -
    from selected_cell [OF sq rng ec val lt] obtain q where
      q: "filter (\<lambda>p. cell_of p = (r, c)) (map (\<lambda>i. ?E ! i) sol) = [q]" by blast
    note Q = filter_singleD(1,2) [OF q]
    from Q(1) rng have "q \<in> set ?E" by auto
    then have "q \<in> set (cell_possibilities sudoku gw r c)"
      using expected_possibilities_cell Q(2) by blast
    with nz have "digit_of q = sudoku ! r ! c"
      by (simp add: cell_possibilities_def digit_of_def)
    with cells [OF lt] q show ?thesis by simp
  qed
  ultimately show ?thesis unfolding completes_def by blast
qed

text \<open>
  Claim C8. For every puzzle \<open>solve_sudoku\<close> returns normally: no exception is raised
  (and the search terminates, \<open>solve\<close> being total). When the puzzle has no solution,
  in particular when a digit is given twice in a row, a column or a block, the result is
  the null result: no completed grid and no solving path.
\<close>

theorem unsolvable_reported:
  assumes "puzzle sudoku grid_width block_width"
  shows "(\<exists>result. solve_sudoku sudoku grid_width block_width = Inr result)
       \<and> (\<not> solvable sudoku grid_width block_width \<or> duplicate_digit sudoku grid_width block_width
            \<longrightarrow> solve_sudoku sudoku grid_width block_width = Inr (None, None))"
proof -
  from assms show ?thesis
  proof (cases rule: solve_sudoku_cases)
    case failure
    then show ?thesis by simp
  next
    case (success sol sp f)
    have "solvable sudoku grid_width block_width"
      using success_solvable [OF assms success(8)] unfolding solvable_def by blast
    moreover from this have "\<not> duplicate_digit sudoku grid_width block_width"
      using duplicate_unsolvable by blast
    ultimately show ?thesis using success(8) by simp
  qed
qed

theorem unsolvable_reported_witness:
  "puzzle [[1, 1, 0, 0], [0, 0, 0, 0], [0, 0, 0, 0], [0, 0, 0, 0]] 4 2
   \<and> duplicate_digit [[1, 1, 0, 0], [0, 0, 0, 0], [0, 0, 0, 0], [0, 0, 0, 0]] 4 2
   \<and> solve_sudoku [[1, 1, 0, 0], [0, 0, 0, 0], [0, 0, 0, 0], [0, 0, 0, 0]] 4 2 = Inr (None, None)"
proof -
  have h: "puzzle [[1, 1, 0, 0], [0, 0, 0, 0], [0, 0, 0, 0], [0, 0, 0, 0]] 4 2" by code_simp
  have d: "duplicate_digit [[1, 1, 0, 0], [0, 0, 0, 0], [0, 0, 0, 0], [0, 0, 0, 0]] 4 2"
    by code_simp
  from unsolvable_reported [OF h] h d show ?thesis by blast
qed

text \<open>
  A cover in which every active column has exactly one active row with a 1: the search
  never fails on it.
\<close>

definition forced :: "matrix \<Rightarrow> nat list \<Rightarrow> nat list \<Rightarrow> bool" where
  "forced cover ar ac =
     (distinct ar \<and> (\<forall>c \<in> set ac. hits cover ar c = 1)
      \<and> (\<forall>r \<in> set ar. \<forall>c \<in> set ac. at cover r c = 0 \<or> at cover r c = 1))"

lemma hits_one_unique:
  assumes "hits M ar c = 1" "r \<in> set ar" "at M r c \<noteq> 0" "r' \<in> set ar" "at M r' c \<noteq> 0"
  shows "r = r'"
proof -
  from assms(1) obtain x where x: "filter (\<lambda>r. at M r c \<noteq> 0) ar = [x]"
    unfolding hits_def using length_filter_1 by blast
  from filter_singleD(3) [OF x assms(2,3)] filter_singleD(3) [OF x assms(4,5)]
  show ?thesis by simp
qed

lemma hits_one_subset:
  assumes d: "distinct ar" "distinct ar'" and sub: "set ar' \<subseteq> set ar"
    and h: "hits M ar c = 1"
    and keep: "\<And>r. r \<in> set ar \<Longrightarrow> at M r c \<noteq> 0 \<Longrightarrow> r \<in> set ar'"
  shows "hits M ar' c = 1"
proof -
  from h obtain x where x: "filter (\<lambda>r. at M r c \<noteq> 0) ar = [x]"
    unfolding hits_def using length_filter_1 by blast
  note X = filter_singleD [OF x]
  have "filter (\<lambda>r. at M r c \<noteq> 0) ar' = [x]"
  proof (rule filter_single [OF d(2)])
    show "x \<in> set ar'" using keep X(1,2) by blast
    show "at M x c \<noteq> 0" by (rule X(2))
    fix y assume "y \<in> set ar'" "at M y c \<noteq> 0"
    then show "y = x" using X(3) sub by blast
  qed
  then show ?thesis by (simp add: hits_def)
qed

lemma forced_descend:
  assumes f: "forced M ar ac" and row: "row \<in> set ar"
    and d: "descend row M ar ac = Inr (rtr, ctr, ar1, ac1)"
  shows "forced M ar1 ac1"
proof -
  note s = descend_sets [OF d]
  from f have dist: "distinct ar" and h: "\<And>c. c \<in> set ac \<Longrightarrow> hits M ar c = 1"
    and bin: "\<forall>r \<in> set ar. \<forall>c \<in> set ac. at M r c = 0 \<or> at M r c = 1"
    unfolding forced_def by blast+
  from d have ar1: "ar1 = setdiff1d ar rtr" by (auto simp: descend_def split: sum.splits)
  have d1: "distinct ar1" unfolding ar1 using sorted_setdiff1d [of ar rtr]
    by (simp add: strict_sorted_iff)
  have sub: "set ar1 \<subseteq> set ar" using s(4) by blast
  have "hits M ar1 c = 1" if c: "c \<in> set ac1" for c
  proof (rule hits_one_subset [OF dist d1 sub])
    from c have cac: "c \<in> set ac" and nc: "c \<notin> set ctr" by (simp_all add: s(3))
    show "hits M ar c = 1" using h [OF cac] .
    fix r assume r: "r \<in> set ar" "at M r c \<noteq> 0"
    have "r \<notin> set rtr"
    proof
      assume "r \<in> set rtr"
      then obtain c' where c': "c' \<in> set ctr" "at M r c' \<noteq> 0" by (auto simp: s(2))
      then have "c' \<in> set ac" "at M row c' \<noteq> 0" by (simp_all add: s(1))
      then have "r = row" using hits_one_unique [OF h r(1) c'(2) row] by simp
      with r(2) cac have "c \<in> set ctr" by (simp add: s(1))
      with nc show False by simp
    qed
    with r(1) show "r \<in> set ar1" by (simp add: s(4))
  qed
  moreover have "\<forall>r \<in> set ar1. \<forall>c \<in> set ac1. at M r c = 0 \<or> at M r c = 1"
    using bin sub s(3) by blast
  ultimately show ?thesis unfolding forced_def using d1 by blast
qed

lemma forced_count:
  assumes f: "forced M ar ac" and rng: "\<forall>r \<in> set ar. r < shape0 M" "\<forall>c \<in> set ac. c < shape1 M"
    and ne: "ac \<noteq> []" and m: "min_col M ar ac = Inr (col, count)"
  shows "count = 1"
proof -
  have col: "col \<in> set ac" using min_col_in_active [OF m] .
  from f have dist: "distinct ar" and h: "hits M ar col = 1"
    and bin: "\<forall>r \<in> set ar. at M r col = 0 \<or> at M r col = 1"
    unfolding forced_def using col by blast+
  from m min_col_eq [OF ne rng] have "count = sum_list (map (\<lambda>r. at M r col) ar)" by auto
  also have "\<dots> = int (card {r \<in> set ar. at M r col = 1})"
    using sum_binary [OF dist bin] .
  also have "{r \<in> set ar. at M r col = 1} = {r \<in> set ar. at M r col \<noteq> 0}"
    using bin by auto
  also have "card {r \<in> set ar. at M r col \<noteq> 0} = hits M ar col"
    unfolding hits_def using dist by (simp add: distinct_length_filter Int_def conj_commute)
  finally show ?thesis using h by simp
qed

lemma solve_forced:
  "search_inv M ar ac sol \<Longrightarrow> forced M ar ac \<Longrightarrow>
     \<exists>new. solve M ar ac sol path = Inr (True, sol @ new, path @ map (\<lambda>r. (1, r)) new)"
  and solve_loop_forced:
  "search_inv M ar ac sol \<Longrightarrow> forced M ar ac \<Longrightarrow> ac \<noteq> [] \<Longrightarrow> cands \<noteq> [] \<Longrightarrow>
   set cands \<subseteq> set ar \<Longrightarrow>
     \<exists>new. solve_loop M cands ar ac sol path = Inr (True, sol @ new, path @ map (\<lambda>r. (1, r)) new)"
proof (induction M ar ac sol path and M cands ar ac sol path rule: solve_solve_loop.induct)
  case (1 cover active_rows active_cols solution solution_path)
  note inv = "1.prems"(1) and f = "1.prems"(2)
  show ?case
  proof (cases "active_cols = []")
    case True
    then have "solve cover active_rows active_cols solution solution_path
                 = Inr (True, solution @ [], solution_path @ map (\<lambda>r. (1, r)) [])"
      by (simp add: solve.simps)
    then show ?thesis by blast
  next
    case False
    from inv have rng: "\<forall>r \<in> set active_rows. r < shape0 cover"
        "\<forall>c \<in> set active_cols. c < shape1 cover"
      unfolding search_inv_def by blast+
    obtain col count where m: "min_col cover active_rows active_cols = Inr (col, count)"
      using min_col_eq [OF False rng] by blast
    have cnt: "count = 1" using forced_count [OF f rng False m] .
    then have nz: "count \<noteq> 0" by simp
    have col: "col \<in> set active_cols" using min_col_in_active [OF m] .
    then have c: "candidate_rows cover active_rows col
                    = Inr (filter (\<lambda>r. at cover r col \<noteq> 0) active_rows)"
      using rng by (simp add: candidate_rows_def)
    from f col have "hits cover active_rows col = 1" unfolding forced_def by blast
    then have cne: "filter (\<lambda>r. at cover r col \<noteq> 0) active_rows \<noteq> []"
      unfolding hits_def by auto
    have sub: "set (filter (\<lambda>r. at cover r col \<noteq> 0) active_rows) \<subseteq> set active_rows" by auto
    from "1.IH" [OF _ m refl nz c inv f False cne sub] False
    obtain new where "solve_loop cover (filter (\<lambda>r. at cover r col \<noteq> 0) active_rows)
        active_rows active_cols solution solution_path
          = Inr (True, solution @ new, solution_path @ map (\<lambda>r. (1, r)) new)"
      by auto
    with False m nz c show ?thesis by (simp add: solve.simps)
  qed
next
  case (2 cover active_rows active_cols solution solution_path)
  then show ?case by simp
next
  case (3 cover row rest active_rows active_cols solution solution_path)
  note inv = "3.prems"(1) and f = "3.prems"(2) and ne = "3.prems"(3) and sub = "3.prems"(5)
  from sub have row: "row \<in> set active_rows" by simp
  obtain rtr ctr ar1 ac1 where
    d: "descend row cover active_rows active_cols = Inr (rtr, ctr, ar1, ac1)"
    using descend_ok [OF inv row ne] by blast
  have inv1: "search_inv cover ar1 ac1 (solution @ [row])"
    using search_inv_descend [OF inv row d] .
  have f1: "forced cover ar1 ac1" using forced_descend [OF f row d] .
  from "3.IH"(1) [OF d refl refl refl inv1 f1] obtain new where
    r: "solve cover ar1 ac1 (solution @ [row]) (solution_path @ [(1, row)])
          = Inr (True, (solution @ [row]) @ new, (solution_path @ [(1, row)]) @ map (\<lambda>r. (1, r)) new)"
    by blast
  have "solve_loop cover (row # rest) active_rows active_cols solution solution_path
          = Inr (True, solution @ (row # new), solution_path @ map (\<lambda>r. (1, r)) (row # new))"
    using d r by simp
  then show ?case by blast
qed

definition full :: "grid \<Rightarrow> nat \<Rightarrow> bool" where
  "full sudoku grid_width =
     (\<forall>r \<in> set [0..<grid_width]. \<forall>c \<in> set [0..<grid_width]. sudoku ! r ! c \<noteq> 0)"

lemma column_cases [case_names cell row_digit col_digit block_digit]:
  fixes gw :: nat
  assumes "col < 4 * gw * gw"
  obtains r c where "r < gw" "c < gw" "col = r * gw + c"
  | r d where "r < gw" "1 \<le> d" "d \<le> int gw" "col = gw * gw + r * gw + nat d - 1"
  | c d where "c < gw" "1 \<le> d" "d \<le> int gw" "col = 2 * gw * gw + c * gw + nat d - 1"
  | b d where "b < gw" "1 \<le> d" "d \<le> int gw" "col = 3 * gw * gw + b * gw + nat d - 1"
proof -
  from assms have pos: "0 < gw" by (cases gw) auto
  define G where "G = gw * gw"
  define band where "band = col div G"
  define rem where "rem = col mod G"
  define x where "x = rem div gw"
  define k where "k = rem mod gw"
  define d where "d = int k + 1"
  have Gpos: "0 < G" using pos by (simp add: G_def)
  have rem: "rem < G" unfolding rem_def using Gpos by simp
  have x: "x < gw" unfolding x_def using rem unfolding G_def
    by (simp add: less_mult_imp_div_less)
  have k: "k < gw" unfolding k_def using pos by simp
  have col: "col = band * G + (x * gw + k)"
    unfolding band_def x_def k_def rem_def by simp
  have d: "1 \<le> d" "d \<le> int gw" "nat d - 1 = k" "1 \<le> nat d"
    using k by (simp_all add: d_def)
  have "col < 4 * G" using assms by (simp add: G_def mult.assoc)
  then have "band < 4" unfolding band_def using Gpos
    by (simp add: less_mult_imp_div_less mult.commute)
  then consider "band = 0" | "band = 1" | "band = 2" | "band = 3" by linarith
  then show thesis
  proof cases
    case 1
    with col have "col = x * gw + k" by simp
    with x k show thesis by (rule that(1))
  next
    case 2
    with col d(3,4) have "col = gw * gw + x * gw + nat d - 1" by (simp add: G_def)
    with x d(1,2) show thesis using that(2) by blast
  next
    case 3
    with col d(3,4) have "col = 2 * gw * gw + x * gw + nat d - 1" by (simp add: G_def)
    with x d(1,2) show thesis using that(3) by blast
  next
    case 4
    with col d(3,4) have "col = 3 * gw * gw + x * gw + nat d - 1" by (simp add: G_def)
    with x d(1,2) show thesis using that(4) by blast
  qed
qed

lemma map_product:
  "map f (List.product xs ys) = concat (map (\<lambda>x. map (\<lambda>y. f (x, y)) ys) xs)"
  by (induction xs) simp_all

lemma expected_possibilities_full:
  assumes f: "full sudoku gw"
  shows "expected_possibilities sudoku gw
           = map (\<lambda>(r, c). (r, c, sudoku ! r ! c)) (List.product [0..<gw] [0..<gw])"
proof -
  have cell: "cell_possibilities sudoku gw r c = [(r, c, sudoku ! r ! c)]"
    if "r < gw" "c < gw" for r c
    using f that by (simp add: full_def cell_possibilities_def)
  have row: "concat (map (\<lambda>col. cell_possibilities sudoku gw r col) [0..<gw])
               = map (\<lambda>c. (r, c, sudoku ! r ! c)) [0..<gw]" if r: "r < gw" for r
  proof -
    have "map (\<lambda>col. cell_possibilities sudoku gw r col) [0..<gw]
            = map (\<lambda>c. [(r, c, sudoku ! r ! c)]) [0..<gw]"
      using cell [OF r] by (intro map_cong refl) simp
    then show ?thesis by (simp only: concat_singletons)
  qed
  have "map (\<lambda>row. concat (map (\<lambda>col. cell_possibilities sudoku gw row col) [0..<gw])) [0..<gw]
          = map (\<lambda>r. map (\<lambda>c. (r, c, sudoku ! r ! c)) [0..<gw]) [0..<gw]"
  proof (rule map_cong [OF refl])
    fix r assume "r \<in> set [0..<gw]"
    then have "r < gw" by simp
    then show "concat (map (\<lambda>col. cell_possibilities sudoku gw r col) [0..<gw])
                 = map (\<lambda>c. (r, c, sudoku ! r ! c)) [0..<gw]" by (rule row)
  qed
  then have "expected_possibilities sudoku gw
               = concat (map (\<lambda>r. map (\<lambda>c. (r, c, sudoku ! r ! c)) [0..<gw]) [0..<gw])"
    unfolding expected_possibilities_def by (rule arg_cong)
  also have "\<dots> = map (\<lambda>(r, c). (r, c, sudoku ! r ! c)) (List.product [0..<gw] [0..<gw])"
    unfolding map_product by simp
  finally show ?thesis .
qed

lemma count_in_unit:
  assumes dc: "distinct cells" and du: "distinct u" and sub: "set u \<subseteq> set cells"
  shows "length (filter (\<lambda>k. k \<in> set u \<and> F k = d) cells) = count_list (map F u) d"
proof -
  have "length (filter (\<lambda>k. k \<in> set u \<and> F k = d) cells)
          = card ({k. k \<in> set u \<and> F k = d} \<inter> set cells)"
    using dc by (rule distinct_length_filter)
  also have "{k. k \<in> set u \<and> F k = d} \<inter> set cells = {k. F k = d} \<inter> set u"
    using sub by auto
  also have "card ({k. F k = d} \<inter> set u) = length (filter (\<lambda>k. F k = d) u)"
    using du by (simp add: distinct_length_filter)
  also have "\<dots> = count_list (map F u) d" by (induction u) simp_all
  finally show ?thesis .
qed

lemma units_distinct:
  assumes "u \<in> set (units gw bw)"
  shows "distinct u"
  using assms
proof (cases rule: units_cases)
  case (1 r)
  show ?thesis unfolding 1 row_cells_def by (simp add: distinct_map inj_on_def)
next
  case (2 c)
  show ?thesis unfolding 2 col_cells_def by (simp add: distinct_map inj_on_def)
next
  case (3 b)
  show ?thesis unfolding 3 block_cells_def
    by (intro distinct_filter distinct_product) simp_all
qed

lemma row_unit_iff:
  assumes sq: "bw * bw = gw" and v: "valid_possibility gw p" and r: "r < gw"
    and d: "1 \<le> d" "d \<le> int gw"
  shows "gw * gw + r * gw + nat d - 1 \<in> set (constraint_columns gw bw p)
           \<longleftrightarrow> cell_of p \<in> set (row_cells gw r) \<and> digit_of p = d"
proof -
  from v have "fst (snd p) < gw" by (cases p) (simp add: valid_possibility_def)
  then have "cell_of p \<in> set (row_cells gw r) \<longleftrightarrow> fst p = r"
    unfolding row_cells_def cell_of_def by auto
  then show ?thesis using row_digit_column_iff [OF sq v r d] by simp
qed

lemma col_unit_iff:
  assumes sq: "bw * bw = gw" and v: "valid_possibility gw p" and c: "c < gw"
    and d: "1 \<le> d" "d \<le> int gw"
  shows "2 * gw * gw + c * gw + nat d - 1 \<in> set (constraint_columns gw bw p)
           \<longleftrightarrow> cell_of p \<in> set (col_cells gw c) \<and> digit_of p = d"
proof -
  from v have "fst p < gw" by (cases p) (simp add: valid_possibility_def)
  then have "cell_of p \<in> set (col_cells gw c) \<longleftrightarrow> fst (snd p) = c"
    unfolding col_cells_def cell_of_def by auto
  then show ?thesis using col_digit_column_iff [OF sq v c d] by simp
qed

lemma block_unit_iff:
  assumes sq: "bw * bw = gw" and v: "valid_possibility gw p" and b: "b < gw"
    and d: "1 \<le> d" "d \<le> int gw"
  shows "3 * gw * gw + b * gw + nat d - 1 \<in> set (constraint_columns gw bw p)
           \<longleftrightarrow> cell_of p \<in> set (block_cells gw bw b) \<and> digit_of p = d"
proof -
  from v have "fst p < gw" "fst (snd p) < gw"
    by (cases p; simp add: valid_possibility_def)+
  then have "cell_of p \<in> set (block_cells gw bw b)
               \<longleftrightarrow> block_index gw bw (fst p) (fst (snd p)) = b"
    unfolding block_cells_def cell_of_def by auto
  then show ?thesis using block_digit_column_iff [OF sq v b d] by simp
qed

lemma full_column_once:
  assumes pz: "puzzle sudoku gw bw" and fu: "full sudoku gw"
    and sg: "solved_grid sudoku gw bw" and col: "col < 4 * gw * gw"
  shows "length (filter (\<lambda>p. col \<in> set (constraint_columns gw bw p))
                  (expected_possibilities sudoku gw)) = 1"
proof -
  let ?E = "expected_possibilities sudoku gw"
  let ?cells = "List.product [0..<gw] [0..<gw]"
  let ?g = "\<lambda>(r, c). (r, c, sudoku ! r ! c)"
  let ?F = "\<lambda>(r, c). sudoku ! r ! c"
  from pz have sq: "bw * bw = gw" by (simp add: puzzle_def)
  have E: "?E = map ?g ?cells" using expected_possibilities_full [OF fu] .
  have val: "\<And>p. p \<in> set ?E \<Longrightarrow> valid_possibility gw p"
    using expected_possibilities_valid [OF pz] .
  have dc: "distinct ?cells" by (simp add: distinct_product)
  have via: "length (filter (\<lambda>p. col \<in> set (constraint_columns gw bw p)) ?E)
               = length (filter (\<lambda>k. Q (?g k)) ?cells)"
    if "\<And>p. valid_possibility gw p \<Longrightarrow> col \<in> set (constraint_columns gw bw p) \<longleftrightarrow> Q p"
    for Q
  proof -
    have "filter (\<lambda>p. col \<in> set (constraint_columns gw bw p)) ?E = filter Q ?E"
      using that val by (intro filter_cong refl) blast
    then have "length (filter (\<lambda>p. col \<in> set (constraint_columns gw bw p)) ?E)
                 = length (filter Q ?E)" by simp
    also have "\<dots> = length (filter (\<lambda>k. Q (?g k)) ?cells)"
      unfolding E by (rule length_filter_map)
    finally show ?thesis .
  qed
  have unit: "length (filter (\<lambda>p. col \<in> set (constraint_columns gw bw p)) ?E) = 1"
    if u: "u \<in> set (units gw bw)" and d: "1 \<le> d" "d \<le> int gw"
      and iff: "\<And>p. valid_possibility gw p \<Longrightarrow>
          col \<in> set (constraint_columns gw bw p) \<longleftrightarrow> cell_of p \<in> set u \<and> digit_of p = d"
    for u d
  proof -
    have sub: "set u \<subseteq> set ?cells" using units_in_range [OF u] by auto
    have "(\<lambda>k. cell_of (?g k) \<in> set u \<and> digit_of (?g k) = d) = (\<lambda>k. k \<in> set u \<and> ?F k = d)"
      by (auto simp: cell_of_def digit_of_def fun_eq_iff)
    then have "length (filter (\<lambda>p. col \<in> set (constraint_columns gw bw p)) ?E)
            = length (filter (\<lambda>k. k \<in> set u \<and> ?F k = d) ?cells)"
      using via [of "\<lambda>p. cell_of p \<in> set u \<and> digit_of p = d", OF iff] by simp
    also have "\<dots> = count_list (map ?F u) d"
      using count_in_unit [OF dc units_distinct [OF u] sub] .
    also have "\<dots> = 1"
    proof -
      have "d \<in> set (map int [1..<gw + 1])" unfolding digit_range using d by blast
      with sg u show ?thesis unfolding solved_grid_def by blast
    qed
    finally show ?thesis .
  qed
  from col show ?thesis
  proof (cases rule: column_cases)
    case (cell r c)
    have "(\<lambda>k. cell_of (?g k) = (r, c)) = (\<lambda>k. k = (r, c))"
      by (auto simp: cell_of_def fun_eq_iff)
    then have "length (filter (\<lambda>p. col \<in> set (constraint_columns gw bw p)) ?E)
            = length (filter (\<lambda>k. k = (r, c)) ?cells)"
      using via [of "\<lambda>p. cell_of p = (r, c)"] cell_column_iff [OF sq _ cell(1,2)]
      unfolding cell(3) by simp
    also have "filter (\<lambda>k. k = (r, c)) ?cells = [(r, c)]"
      using dc cell(1,2) by (intro filter_single) auto
    finally show ?thesis by simp
  next
    case (row_digit r d)
    have u: "row_cells gw r \<in> set (units gw bw)" using row_digit(1) by (simp add: units_def)
    show ?thesis
      using unit [OF u row_digit(2,3)] row_unit_iff [OF sq _ row_digit(1,2,3)]
      unfolding row_digit(4) by blast
  next
    case (col_digit c d)
    have u: "col_cells gw c \<in> set (units gw bw)" using col_digit(1) by (simp add: units_def)
    show ?thesis
      using unit [OF u col_digit(2,3)] col_unit_iff [OF sq _ col_digit(1,2,3)]
      unfolding col_digit(4) by blast
  next
    case (block_digit b d)
    have u: "block_cells gw bw b \<in> set (units gw bw)"
      using block_digit(1) by (simp add: units_def)
    show ?thesis
      using unit [OF u block_digit(2,3)] block_unit_iff [OF sq _ block_digit(1,2,3)]
      unfolding block_digit(4) by blast
  qed
qed

lemma square_eqI:
  assumes "square n f" "square n g" "\<And>r c. r < n \<Longrightarrow> c < n \<Longrightarrow> f ! r ! c = g ! r ! c"
  shows "f = g"
proof (rule nth_equalityI)
  show "length f = length g" using assms(1,2) by (simp add: square_def)
next
  fix r assume "r < length f"
  then have r: "r < n" using assms(1) by (simp add: square_def)
  then have "length (f ! r) = n" "length (g ! r) = n"
    using assms(1,2) by (simp_all add: square_def)
  then show "f ! r = g ! r" using assms(3) [OF r] by (intro nth_equalityI) simp_all
qed

lemma replay_noop:
  assumes "square n g" "\<forall>e \<in> set p. \<exists>r < n. \<exists>c < n. e = (''ins'', r, c, g ! r ! c)"
  shows "replay p g = Inr g"
proof -
  have "foldE (\<lambda>(action, row, col, n) g.
              if action = ''ins'' then set_cell g row col n else set_cell g row col 0) p g = Inr g"
    using assms(2)
  proof (induction p)
    case Nil
    then show ?case by simp
  next
    case (Cons e p)
    then obtain r c where rc: "r < n" "c < n" "e = (''ins'', r, c, g ! r ! c)" by auto
    have "set_cell g r c (g ! r ! c) = Inr g"
      using square_set_cell(1) [OF assms(1) rc(1,2), of "g ! r ! c"] by simp
    with Cons rc(3) show ?case by simp
  qed
  then show ?thesis by (simp add: replay_def)
qed

lemma indicator_sum:
  assumes "distinct ks" "x \<in> set ks"
  shows "sum_list (map (\<lambda>k. if x = k then 1 else 0) ks) = (1::nat)"
  using assms
proof (induction ks)
  case Nil
  then show ?case by simp
next
  case (Cons k ks)
  show ?case
  proof (cases "x = k")
    case True
    then have "x \<notin> set ks" using Cons.prems(1) by simp
    then have "sum_list (map (\<lambda>k. if x = k then 1 else 0) ks) = (0::nat)"
      by (induction ks) auto
    with True show ?thesis by simp
  next
    case False
    with Cons show ?thesis by simp
  qed
qed

lemma length_by_counts:
  assumes "distinct ks" "set xs \<subseteq> set ks"
  shows "length xs = sum_list (map (count_list xs) ks)"
  using assms(2)
proof (induction xs)
  case Nil
  then show ?case by simp
next
  case (Cons x xs)
  have one: "sum_list (map (\<lambda>k. if x = k then 1 else 0) ks) = (1::nat)"
    using indicator_sum [OF assms(1)] Cons.prems by simp
  have "sum_list (map (count_list (x # xs)) ks)
          = sum_list (map (\<lambda>k. count_list xs k + (if x = k then 1 else 0)) ks)"
    by (intro arg_cong [where f = sum_list] map_cong refl) simp
  also have "\<dots> = sum_list (map (count_list xs) ks) + sum_list (map (\<lambda>k. if x = k then 1 else 0) ks)"
    by (simp add: sum_list_addf)
  finally have "sum_list (map (count_list (x # xs)) ks)
                  = Suc (sum_list (map (count_list xs) ks))"
    using one by simp
  moreover have "length xs = sum_list (map (count_list xs) ks)"
    using Cons by simp
  ultimately show ?case by (simp del: count_list.simps)
qed

lemma forced_full:
  assumes pz: "puzzle sudoku gw bw" and fu: "full sudoku gw" and sg: "solved_grid sudoku gw bw"
  shows "forced (cover_of gw bw (length (expected_possibilities sudoku gw)) (4 * gw * gw)
                   (expected_possibilities sudoku gw))
           [0..<length (expected_possibilities sudoku gw)] [0..<4 * gw * gw]"
proof -
  let ?E = "expected_possibilities sudoku gw"
  let ?C = "4 * gw * gw"
  let ?M = "cover_of gw bw (length ?E) ?C ?E"
  have rng: "\<forall>i \<in> set [0..<length ?E]. i < length ?E" by simp
  have "hits ?M [0..<length ?E] c = 1" if c: "c \<in> set [0..<?C]" for c
  proof -
    from c have c': "c < ?C" by simp
    have "hits ?M [0..<length ?E] c
            = length (filter (\<lambda>p. c \<in> set (constraint_columns gw bw p))
                        (map (\<lambda>i. ?E ! i) [0..<length ?E]))"
      using hits_selected [OF rng c'] .
    also have "map (\<lambda>i. ?E ! i) [0..<length ?E] = ?E" by (rule map_nth)
    finally show ?thesis using full_column_once [OF pz fu sg c'] by simp
  qed
  moreover have "at ?M r c = 0 \<or> at ?M r c = 1"
    if "r \<in> set [0..<length ?E]" "c \<in> set [0..<?C]" for r c
    using that by (simp add: cover_of_at)
  ultimately show ?thesis unfolding forced_def by (simp del: upt_Suc)
qed

lemma sum_list_ones:
  assumes "\<forall>x \<in> set xs. f x = (1::nat)"
  shows "sum_list (map f xs) = length xs"
  using assms by (induction xs) simp_all

definition ins_step :: "possibility \<Rightarrow> step" where
  "ins_step p = (''ins'', fst p, fst (snd p), snd (snd p))"

lemma count_list_inj:
  assumes "inj h" shows "count_list (map h xs) (h x) = count_list xs x"
  using assms by (induction xs) (auto simp: inj_def)

lemma ins_step_inj: "inj ins_step"
  by (auto simp: inj_def ins_step_def prod_eq_iff)

text \<open>
  Claim C7, as amended. For a puzzle that is already a fully filled valid solution,
  \<open>solve_sudoku\<close> returns a completed grid equal to the input. The solving path is
  not empty: it holds \<open>grid_width\<^sup>2\<close> events, all of them insertions and none a
  removal, exactly one for every cell, each inserting the digit the cell already holds,
  so that replaying the path leaves the input as it is.
\<close>

theorem complete_grid_reinserted:
  assumes pz: "puzzle sudoku grid_width block_width"
    and fu: "full sudoku grid_width"
    and sg: "solved_grid sudoku grid_width block_width"
  shows "\<exists>p. solve_sudoku sudoku grid_width block_width = Inr (Some sudoku, Some p)
           \<and> (\<forall>e \<in> set p. \<exists>r < grid_width. \<exists>c < grid_width. e = (''ins'', r, c, sudoku ! r ! c))
           \<and> (\<forall>r < grid_width. \<forall>c < grid_width.
                 count_list p (''ins'', r, c, sudoku ! r ! c) = 1)
           \<and> length p = grid_width * grid_width
           \<and> replay p sudoku = Inr sudoku"
proof -
  let ?gw = grid_width
  let ?E = "expected_possibilities sudoku ?gw"
  let ?C = "4 * ?gw * ?gw"
  let ?M = "cover_of ?gw block_width (length ?E) ?C ?E"
  let ?cells = "List.product [0..<?gw] [0..<?gw]"
  let ?g = "\<lambda>(r, c). (r, c, sudoku ! r ! c)"
  from pz have sq: "block_width * block_width = ?gw" by (simp add: puzzle_def)
  note sh = cover_of_shape [of ?gw block_width ?E ?C]
  have E: "?E = map ?g ?cells" using expected_possibilities_full [OF fu] .
  have val: "\<forall>p \<in> set ?E. valid_possibility ?gw p"
    using expected_possibilities_valid [OF pz] by blast
  have inE: "q = (r, c, sudoku ! r ! c)" if "q \<in> set ?E" "cell_of q = (r, c)" for q r c
    using that unfolding E by (auto simp: cell_of_def)
  have "search_inv ?M [0..<length ?E] [0..<?C] []"
    using search_inv_initial [of ?M] unfolding sh .
  from solve_forced [OF this forced_full [OF pz fu sg], of "[]"] obtain new where
    new: "solve ?M [0..<length ?E] [0..<?C] [] [] = Inr (True, new, map (\<lambda>r. (1, r)) new)"
    by auto
  from pz show ?thesis
  proof (cases rule: solve_sudoku_cases)
    case (failure sol sp)
    with new show ?thesis by simp
  next
    case (success sol sp f)
    from success(1) new have sol: "sol = new" and sp: "sp = map (\<lambda>r. (1, r)) sol" by auto
    note rng = success(3) and ec = success(4) and sqf = success(6) and cells = success(7)
    let ?S = "map (\<lambda>i. ?E ! i) sol"
    let ?p = "map ins_step ?S"
    have p: "map (event ?E) sp = ?p"
      unfolding sp by (simp add: event_def ins_step_def comp_def)
    have sel: "filter (\<lambda>q. cell_of q = (r, c)) ?S = [(r, c, sudoku ! r ! c)]"
      if lt: "r < ?gw" "c < ?gw" for r c
    proof -
      from selected_cell [OF sq rng ec val lt] obtain q where
        q: "filter (\<lambda>q. cell_of q = (r, c)) ?S = [q]" by blast
      note Q = filter_singleD(1,2) [OF q]
      from Q(1) rng have "q \<in> set ?E" by auto
      then have "q = (r, c, sudoku ! r ! c)" using Q(2) by (rule inE)
      with q show ?thesis by simp
    qed
    have f: "f = sudoku"
    proof (rule square_eqI [OF sqf puzzle_square [OF pz]])
      fix r c assume lt: "r < ?gw" "c < ?gw"
      show "f ! r ! c = sudoku ! r ! c"
        using cells [OF lt] sel [OF lt] by (simp add: digit_of_def)
    qed
    have SE: "set ?S \<subseteq> set ?E" using rng by auto
    have ev: "\<exists>r < ?gw. \<exists>c < ?gw. e = (''ins'', r, c, sudoku ! r ! c)" if "e \<in> set ?p" for e
    proof -
      from that have "e \<in> ins_step ` set ?S" by (simp only: set_map)
      then obtain q where q: "e = ins_step q" "q \<in> set ?S" by (rule imageE)
      with SE have "q \<in> set ?E" by blast
      then obtain r c where "r < ?gw" "c < ?gw" "q = (r, c, sudoku ! r ! c)"
        unfolding E by auto
      with q(1) show ?thesis by (auto simp: ins_step_def)
    qed
    have cnt: "count_list ?p (''ins'', r, c, sudoku ! r ! c) = 1"
      if lt: "r < ?gw" "c < ?gw" for r c
    proof -
      have "filter (\<lambda>q. q = (r, c, sudoku ! r ! c)) ?S = filter (\<lambda>q. cell_of q = (r, c)) ?S"
      proof (rule filter_cong [OF refl])
        fix q assume "q \<in> set ?S"
        with SE have "q \<in> set ?E" by blast
        then show "(q = (r, c, sudoku ! r ! c)) = (cell_of q = (r, c))"
          using inE [of q r c] by (auto simp: cell_of_def)
      qed
      then have "length (filter (\<lambda>q. q = (r, c, sudoku ! r ! c)) ?S) = 1"
        using sel [OF lt] by simp
      moreover have "count_list xs y = length (filter (\<lambda>q. q = y) xs)" for xs :: "possibility list" and y
        by (induction xs) simp_all
      ultimately have "count_list ?S (r, c, sudoku ! r ! c) = 1" by simp
      then have "count_list (map ins_step ?S) (ins_step (r, c, sudoku ! r ! c)) = 1"
        by (simp only: count_list_inj [OF ins_step_inj])
      moreover have "ins_step (r, c, sudoku ! r ! c) = (''ins'', r, c, sudoku ! r ! c)"
        by (simp add: ins_step_def)
      ultimately show ?thesis by (simp only:)
    qed
    have len: "length ?p = ?gw * ?gw"
    proof -
      let ?ks = "map (\<lambda>k. ins_step (?g k)) ?cells"
      have "inj_on (\<lambda>k. ins_step (?g k)) (set ?cells)"
        by (auto simp: inj_on_def ins_step_def)
      then have dk: "distinct ?ks" by (simp add: distinct_map distinct_product)
      have sub: "set ?p \<subseteq> set ?ks"
      proof
        fix e assume "e \<in> set ?p"
        from ev [OF this] obtain r c where "r < ?gw" "c < ?gw" "e = (''ins'', r, c, sudoku ! r ! c)"
          by blast
        then have "(r, c) \<in> set ?cells" "e = ins_step (?g (r, c))"
          by (simp_all add: ins_step_def)
        then show "e \<in> set ?ks" by (metis (no_types, lifting) image_eqI set_map)
      qed
      have "\<forall>e \<in> set ?ks. count_list ?p e = 1"
      proof
        fix e assume "e \<in> set ?ks"
        then have "e \<in> (\<lambda>k. ins_step (?g k)) ` set ?cells" by (simp only: set_map)
        then obtain k where k: "e = ins_step (?g k)" "k \<in> set ?cells" by (rule imageE)
        obtain r c where rc: "k = (r, c)" by (cases k)
        with k(2) have lt: "r < ?gw" "c < ?gw" by simp_all
        have "e = (''ins'', r, c, sudoku ! r ! c)" using k(1) rc by (simp add: ins_step_def)
        with cnt [OF lt] show "count_list ?p e = 1" by (simp only:)
      qed
      then have "sum_list (map (count_list ?p) ?ks) = length ?ks" by (rule sum_list_ones)
      with length_by_counts [OF dk sub] show ?thesis by simp
    qed
    have noop: "replay ?p sudoku = Inr sudoku"
      using replay_noop [OF puzzle_square [OF pz]] ev by blast
    from success(8) f p have "solve_sudoku sudoku ?gw block_width = Inr (Some sudoku, Some ?p)"
      by simp
    with ev cnt len noop show ?thesis by blast
  qed
qed

lemma example_run:
  "solve_sudoku example_grid 4 2 =
     Inr (Some [[1, 3, 2, 4], [4, 2, 3, 1], [2, 4, 1, 3], [3, 1, 4, 2]],
          Some [(''ins'', 0, 0, 1), (''ins'', 1, 2, 3), (''ins'', 2, 1, 4),
                (''ins'', 1, 1, 2), (''ins'', 0, 1, 3), (''ins'', 1, 0, 4),
                (''ins'', 1, 3, 1), (''ins'', 3, 1, 1), (''ins'', 3, 3, 2),
                (''ins'', 0, 3, 4), (''ins'', 0, 2, 2), (''ins'', 2, 2, 1),
                (''ins'', 2, 3, 3), (''ins'', 2, 0, 2), (''ins'', 3, 0, 3),
                (''ins'', 3, 2, 4)])"
  by code_simp

lemma example_puzzle: "puzzle example_grid 4 2"
  by code_simp

theorem solved_grid_from_exact_cover_witness:
  "puzzle example_grid 4 2
   \<and> (\<exists>cover possibilities solution solution_path.
           create_cover example_grid 4 2 = Inr (cover, possibilities)
         \<and> solve cover [0..<shape0 cover] [0..<shape1 cover] [] []
               = Inr (True, solution, solution_path)
         \<and> shape1 cover = 4 * 4 * 4
         \<and> exact_cover cover solution
         \<and> build_final_sudoku possibilities solution example_grid
               = Inr [[1, 3, 2, 4], [4, 2, 3, 1], [2, 4, 1, 3], [3, 1, 4, 2]]
         \<and> solved_grid [[1, 3, 2, 4], [4, 2, 3, 1], [2, 4, 1, 3], [3, 1, 4, 2]] 4 2)"
  using solved_grid_from_exact_cover [OF example_puzzle example_run] example_puzzle
  by blast


definition example_solution :: grid where
  "example_solution = [[1, 2, 3, 4], [3, 4, 1, 2], [2, 1, 4, 3], [4, 3, 2, 1]]"

lemma example_solution_facts:
  "puzzle example_solution 4 2" "full example_solution 4" "solved_grid example_solution 4 2"
  by code_simp+

theorem complete_grid_reinserted_witness:
  "puzzle example_solution 4 2 \<and> full example_solution 4 \<and> solved_grid example_solution 4 2
   \<and> (\<exists>p. solve_sudoku example_solution 4 2 = Inr (Some example_solution, Some p)
           \<and> (\<forall>e \<in> set p. \<exists>r < 4. \<exists>c < 4. e = (''ins'', r, c, example_solution ! r ! c))
           \<and> (\<forall>r < 4. \<forall>c < 4. count_list p (''ins'', r, c, example_solution ! r ! c) = 1)
           \<and> length p = 4 * 4
           \<and> replay p example_solution = Inr example_solution)"
  using complete_grid_reinserted [OF example_solution_facts] example_solution_facts
  by blast

text \<open>
  Claim C7 as stated fails: the solving path of a fully filled valid grid is not empty.
\<close>

theorem empty_log_counterexample:
  "puzzle example_solution 4 2 \<and> full example_solution 4 \<and> solved_grid example_solution 4 2
   \<and> solve_sudoku example_solution 4 2
       = Inr (Some example_solution,
              Some [(''ins'', 0, 0, 1), (''ins'', 0, 1, 2), (''ins'', 0, 2, 3), (''ins'', 0, 3, 4),
                    (''ins'', 1, 0, 3), (''ins'', 1, 1, 4), (''ins'', 1, 2, 1), (''ins'', 1, 3, 2),
                    (''ins'', 2, 0, 2), (''ins'', 2, 1, 1), (''ins'', 2, 2, 4), (''ins'', 2, 3, 3),
                    (''ins'', 3, 0, 4), (''ins'', 3, 1, 3), (''ins'', 3, 2, 2), (''ins'', 3, 3, 1)])
   \<and> solve_sudoku example_solution 4 2 \<noteq> Inr (Some example_solution, Some [])"
  by code_simp

end
